theory Spec2Isabelle
  imports
    Complex_Main
    "HOL-Library.Word"
    "HOL-Library.Multiset"
    "HOL-Library.Sublist"
    "HOL-Library.Log_Nat"
begin

section \<open>JavaScript values used by the cost tree\<close>

subsection \<open>Strings\<close>

text \<open>
  A JavaScript string is a sequence of UTF-16 code units. ASCII literals of the source
  are written \<open>ascii ''Total''\<close>.
\<close>

type_synonym code_unit = "16 word"
type_synonym jsstring = "code_unit list"

definition ascii :: "string \<Rightarrow> jsstring" where
  "ascii s = map (\<lambda>c. word_of_nat (of_char c)) s"

text \<open>
  \<open>String.prototype.trim\<close> and \<open>parseFloat\<close> strip the code units of the ECMAScript
  productions WhiteSpace and LineTerminator.
\<close>

definition isWhiteSpace :: "code_unit \<Rightarrow> bool" where
  "isWhiteSpace c \<longleftrightarrow>
     c = 0x0009 \<or> c = 0x000A \<or> c = 0x000B \<or> c = 0x000C \<or> c = 0x000D \<or>
     c = 0x0020 \<or> c = 0x00A0 \<or> c = 0x1680 \<or> (0x2000 \<le> c \<and> c \<le> 0x200A) \<or>
     c = 0x2028 \<or> c = 0x2029 \<or> c = 0x202F \<or> c = 0x205F \<or> c = 0x3000 \<or>
     c = 0xFEFF"

definition trim :: "jsstring \<Rightarrow> jsstring" where
  "trim s = rev (dropWhile isWhiteSpace (rev (dropWhile isWhiteSpace s)))"

subsection \<open>Numbers\<close>

text \<open>
  A JavaScript number is an IEEE 754 binary64 value. A finite value is kept as the
  rational it denotes; the model distinguishes the negative zero, the two infinities
  and a single NaN. Every arithmetic result is rounded to the nearest representable
  value, ties to the even significand.
\<close>

datatype number = Finite rat | NegZero | PosInfinity | NegInfinity | NaN

text \<open>\<open>ilog2 q\<close> is the exponent \<open>e\<close> with \<open>2 powi e \<le> |q| < 2 powi (e + 1)\<close>, for \<open>q \<noteq> 0\<close>.\<close>

definition ilog2 :: "rat \<Rightarrow> int" where
  "ilog2 q = (if 1 \<le> \<bar>q\<bar> then bitlen \<lfloor>\<bar>q\<bar>\<rfloor> - 1 else - bitlen (\<lceil>1 / \<bar>q\<bar>\<rceil> - 1))"

definition round_half_even :: "rat \<Rightarrow> int" where
  "round_half_even x =
     (let f = \<lfloor>x\<rfloor>; d = x - of_int f
      in if d < 1 / 2 then f else if 1 / 2 < d then f + 1 else if even f then f else f + 1)"

text \<open>
  Rounding of a non-zero exact result: 53 significant bits, the least exponent of the
  unit in the last place is \<open>-1074\<close>, and a rounded magnitude of \<open>2 ^ 1024\<close> or more
  overflows to an infinity. A negative value that rounds to zero gives the negative zero.
\<close>

definition round_double :: "rat \<Rightarrow> number" where
  "round_double q =
     (let e = max (ilog2 q - 52) (- 1074);
          r = of_int (round_half_even (q / (2 powi e))) * (2 powi e)
      in if 2 ^ 1024 \<le> \<bar>r\<bar> then (if 0 < q then PosInfinity else NegInfinity)
         else if r = 0 \<and> q < 0 then NegZero
         else Finite r)"

instantiation number :: "{zero, plus, ord}"
begin

definition zero_number :: number where
  "zero_number = Finite 0"

fun plus_number :: "number \<Rightarrow> number \<Rightarrow> number" where
  "plus_number NaN y = NaN"
| "plus_number x NaN = NaN"
| "plus_number PosInfinity NegInfinity = NaN"
| "plus_number NegInfinity PosInfinity = NaN"
| "plus_number PosInfinity y = PosInfinity"
| "plus_number NegInfinity y = NegInfinity"
| "plus_number x PosInfinity = PosInfinity"
| "plus_number x NegInfinity = NegInfinity"
| "plus_number NegZero y = y"
| "plus_number x NegZero = x"
| "plus_number (Finite a) (Finite b) = (if a + b = 0 then Finite 0 else round_double (a + b))"

fun less_number :: "number \<Rightarrow> number \<Rightarrow> bool" where
  "less_number NaN y = False"
| "less_number x NaN = False"
| "less_number x NegInfinity = False"
| "less_number NegInfinity y = True"
| "less_number PosInfinity y = False"
| "less_number x PosInfinity = True"
| "less_number NegZero NegZero = False"
| "less_number NegZero (Finite b) = (0 < b)"
| "less_number (Finite a) NegZero = (a < 0)"
| "less_number (Finite a) (Finite b) = (a < b)"

definition less_eq_number :: "number \<Rightarrow> number \<Rightarrow> bool" where
  "less_eq_number x y \<longleftrightarrow> x \<noteq> NaN \<and> y \<noteq> NaN \<and> \<not> y < x"

instance ..

end

text \<open>\<open>ToBoolean\<close> on a number: the zeros and NaN are falsy.\<close>

definition truthy :: "number \<Rightarrow> bool" where
  "truthy x \<longleftrightarrow> x \<noteq> NaN \<and> x \<noteq> Finite 0 \<and> x \<noteq> NegZero"

subsection \<open>The built-in \<open>parseFloat\<close>\<close>

text \<open>
  \<open>parseFloat\<close> skips leading white space, takes the longest prefix of the rest that is a
  StrDecimalLiteral (an optional sign, then \<open>Infinity\<close> or decimal digits with an
  optional fraction and an optional exponent) and returns the number nearest to its
  value; it returns NaN when there is no such prefix.
\<close>

definition isDigit :: "code_unit \<Rightarrow> bool" where
  "isDigit c \<longleftrightarrow> 0x30 \<le> c \<and> c \<le> 0x39"

definition digitsValue :: "jsstring \<Rightarrow> int" where
  "digitsValue ds = foldl (\<lambda>n c. 10 * n + (uint c - 48)) 0 ds"

text \<open>The exponent part: \<open>e\<close> or \<open>E\<close>, an optional sign and at least one digit; otherwise none.\<close>

definition exponentPart :: "jsstring \<Rightarrow> int" where
  "exponentPart s =
     (case s of
        [] \<Rightarrow> 0
      | c # t \<Rightarrow>
          if c = 0x65 \<or> c = 0x45 then
            (case t of
               [] \<Rightarrow> 0
             | d # u \<Rightarrow>
                 if d = 0x2B \<or> d = 0x2D then
                   (if takeWhile isDigit u = [] then 0
                    else (if d = 0x2D then - 1 else 1) * digitsValue (takeWhile isDigit u))
                 else digitsValue (takeWhile isDigit t))
          else 0)"

definition signedNumber :: "bool \<Rightarrow> rat \<Rightarrow> number" where
  "signedNumber neg q =
     (if q = 0 then (if neg then NegZero else Finite 0)
      else round_double (if neg then - q else q))"

definition unsignedLiteral :: "bool \<Rightarrow> jsstring \<Rightarrow> number" where
  "unsignedLiteral neg s =
     (if prefix (ascii ''Infinity'') s then (if neg then NegInfinity else PosInfinity)
      else
        let ip = takeWhile isDigit s;
            r1 = dropWhile isDigit s;
            hasDot = (r1 \<noteq> [] \<and> hd r1 = 0x2E);
            fp = (if hasDot then takeWhile isDigit (tl r1) else []);
            r2 = (if hasDot then dropWhile isDigit (tl r1) else r1)
        in if ip = [] \<and> fp = [] then NaN
           else signedNumber neg
                  ((of_int (digitsValue ip) + of_int (digitsValue fp) / 10 ^ length fp)
                     * (10 powi exponentPart r2)))"

definition parseFloat :: "jsstring \<Rightarrow> number" where
  "parseFloat s =
     (case dropWhile isWhiteSpace s of
        [] \<Rightarrow> NaN
      | c # t \<Rightarrow>
          if c = 0x2D then unsignedLiteral True t
          else if c = 0x2B then unsignedLiteral False t
          else unsignedLiteral False (c # t))"

section \<open>The tree builder (\<open>utils/dataProcessor.ts\<close>)\<close>

text \<open>
  The columns of a row that the program reads: the six category levels, in the order of
  \<open>levelKeys\<close>, and the cost column. A row is the object that the CSV parser hands
  over, a dictionary from column to string; a column missing from the row reads as
  \<open>undefined\<close>, here \<open>None\<close>.
\<close>

datatype key = Level1 | Level2 | Level3 | Level4 | Level5 | Level6 | Cost

type_synonym row = "key \<rightharpoonup> jsstring"

datatype CostNode =
  CostNode (name: jsstring) (level: nat) (cost: number) (children: "CostNode list")
    (totalCost: number)

definition rootNode :: CostNode where
  "rootNode = CostNode (ascii ''Total'') 0 0 [] 0"

definition levelKeys :: "key list" where
  "levelKeys = [Level1, Level2, Level3, Level4, Level5, Level6]"

text \<open>
  The row that the CSV parser makes of one line under the header of the seven columns,
  the six levels and then the cost: the fields of the line in order, as strings. A
  line with fewer fields leaves the later columns out of the row.
\<close>

definition csvRow :: "string list \<Rightarrow> row" where
  "csvRow fields = map_of (zip (levelKeys @ [Cost]) (map ascii fields))"

text \<open>\<open>parseFloat(row[cost]) || 0\<close>; \<open>parseFloat\<close> reads \<open>undefined\<close> as the string of that name.\<close>

definition rowCost :: "row \<Rightarrow> number" where
  "rowCost row =
     (let v = parseFloat (case row Cost of None \<Rightarrow> ascii ''undefined'' | Some s \<Rightarrow> s)
      in if truthy v then v else 0)"

text \<open>
  \<open>row[key]?.toString().trim()\<close>, together with the test \<open>!name || name === ''\<close>:
  \<open>None\<close> when the walk stops at this level, the trimmed name otherwise.
\<close>

definition cellName :: "row \<Rightarrow> key \<Rightarrow> jsstring option" where
  "cellName row k =
     (case row k of
        None \<Rightarrow> None
      | Some s \<Rightarrow> (if trim s = [] then None else Some (trim s)))"

text \<open>The update of the first element that satisfies a test, the one \<open>find\<close> returns.\<close>

fun updFirst :: "('a \<Rightarrow> bool) \<Rightarrow> ('a \<Rightarrow> 'a) \<Rightarrow> 'a list \<Rightarrow> 'a list" where
  "updFirst P f [] = []"
| "updFirst P f (x # xs) = (if P x then f x # xs else x # updFirst P f xs)"

text \<open>
  The loop over \<open>levelKeys\<close> for one row, from index \<open>i\<close> on with the keys still to
  visit, at the node \<open>currentNode\<close>. The source moves a reference down the tree and
  mutates the node it ends at; the model rebuilds the path to that node. The loop ends
  at the first blank level or after the last key, and then adds the cost of the row to
  the node reached.
\<close>

primrec walkLevels :: "key list \<Rightarrow> nat \<Rightarrow> row \<Rightarrow> number \<Rightarrow> CostNode \<Rightarrow> CostNode" where
  "walkLevels [] i row c currentNode =
     CostNode (name currentNode) (level currentNode) (cost currentNode + c)
       (children currentNode) (totalCost currentNode)"
| "walkLevels (k # ks) i row c currentNode =
     (case cellName row k of
        None \<Rightarrow>
          CostNode (name currentNode) (level currentNode) (cost currentNode + c)
            (children currentNode) (totalCost currentNode)
      | Some nm \<Rightarrow>
          (case find (\<lambda>ch. name ch = nm) (children currentNode) of
             None \<Rightarrow>
               CostNode (name currentNode) (level currentNode) (cost currentNode)
                 (children currentNode @ [walkLevels ks (i + 1) row c (CostNode nm (i + 1) 0 [] 0)])
                 (totalCost currentNode)
           | Some child \<Rightarrow>
               CostNode (name currentNode) (level currentNode) (cost currentNode)
                 (updFirst (\<lambda>ch. name ch = nm) (walkLevels ks (i + 1) row c)
                    (children currentNode))
                 (totalCost currentNode)))"

text \<open>The body of \<open>data.forEach\<close>.\<close>

definition addRow :: "CostNode \<Rightarrow> row \<Rightarrow> CostNode" where
  "addRow rt row = walkLevels levelKeys 0 row (rowCost row) rt"

text \<open>
  \<open>calculateTotal\<close> stores the total of every node of the subtree and returns the total
  of its root; the model returns the subtree, whose root carries that total.
\<close>

fun calculateTotal :: "CostNode \<Rightarrow> CostNode" where
  "calculateTotal (CostNode nm lv c cs tc) =
     (let cs' = map calculateTotal cs;
          childrenSum = foldl (\<lambda>sum child. sum + totalCost child) 0 cs'
      in CostNode nm lv c cs' (c + childrenSum))"

definition processData :: "row list \<Rightarrow> CostNode" where
  "processData data = calculateTotal (foldl addRow rootNode data)"

section \<open>The category index (\<open>App.tsx\<close>)\<close>

record CategoryOption =
  optLevel :: nat
  optName :: jsstring
  optPath :: "jsstring list"
  optNode :: CostNode

text \<open>\<open>Array.prototype.join\<close> with the separator \<open>' > '\<close>.\<close>

fun join :: "jsstring \<Rightarrow> jsstring list \<Rightarrow> jsstring" where
  "join sep [] = []"
| "join sep [x] = x"
| "join sep (x # y # ys) = x @ sep @ join sep (y # ys)"

text \<open>
  \<open>extractCategories\<close> pushes onto the array \<open>options\<close>; the model returns the options
  that one call pushes, in the order of the pushes.
\<close>

fun extractCategories :: "CostNode \<Rightarrow> jsstring list \<Rightarrow> CategoryOption list" where
  "extractCategories (CostNode nm lv c cs tc) path =
     (if 1 \<le> lv \<and> lv \<le> 3 \<and> 0 < tc then
        [\<lparr>optLevel = lv, optName = join (ascii '' > '') (path @ [nm]), optPath = path @ [nm],
          optNode = CostNode nm lv c cs tc\<rparr>]
      else [])
     @ (if lv < 3 then concat (map (\<lambda>child. extractCategories child (path @ [nm])) cs)
        else [])"

text \<open>The traversal started on each child of the root, with the empty path.\<close>

definition extractAll :: "CostNode \<Rightarrow> CategoryOption list" where
  "extractAll data = concat (map (\<lambda>child. extractCategories child []) (children data))"

text \<open>
  \<open>categoryOptions\<close>: the option for the whole tree, whose label is the seven code units
  of the source's literal, followed by the extracted ones.
\<close>

definition categoryOptions :: "CostNode \<Rightarrow> CategoryOption list" where
  "categoryOptions data =
     \<lparr>optLevel = 0, optName = [0x5168, 0x90E8, 0xFF08, 0x6839, 0x8282, 0x70B9, 0xFF09],
      optPath = [], optNode = data\<rparr> # extractAll data"

section \<open>Notions used to state the properties\<close>

subsection \<open>Nodes and category paths\<close>

text \<open>All nodes of a tree, the root first.\<close>

fun nodes :: "CostNode \<Rightarrow> CostNode list" where
  "nodes (CostNode nm lv c cs tc) = CostNode nm lv c cs tc # concat (map nodes cs)"

text \<open>
  The node at a category path: from the root, the path names a child at every step, the
  first child of that name as \<open>find\<close> returns it.
\<close>

fun lookup :: "CostNode \<Rightarrow> jsstring list \<Rightarrow> CostNode option" where
  "lookup n [] = Some n"
| "lookup n (x # p) =
     (case find (\<lambda>ch. name ch = x) (children n) of
        None \<Rightarrow> None
      | Some ch \<Rightarrow> lookup ch p)"

text \<open>
  The category path of a row: the trimmed names of its levels up to the first blank
  level, which is where the loop over \<open>levelKeys\<close> breaks.
\<close>

fun walkPath :: "key list \<Rightarrow> row \<Rightarrow> jsstring list" where
  "walkPath [] row = []"
| "walkPath (k # ks) row =
     (case cellName row k of None \<Rightarrow> [] | Some nm \<Rightarrow> nm # walkPath ks row)"

definition rowPath :: "row \<Rightarrow> jsstring list" where
  "rowPath row = walkPath levelKeys row"

text \<open>The cost at a category path; 0, the cost of a node to be created, where there is no node.\<close>

definition costAt :: "CostNode \<Rightarrow> jsstring list \<Rightarrow> number" where
  "costAt t p = (case lookup t p of None \<Rightarrow> 0 | Some n \<Rightarrow> cost n)"

text \<open>The names of the children of the node at a path, in their order.\<close>

definition childNamesAt :: "CostNode \<Rightarrow> jsstring list \<Rightarrow> jsstring list" where
  "childNamesAt t p = (case lookup t p of None \<Rightarrow> [] | Some n \<Rightarrow> map name (children n))"

subsection \<open>Invariants of a built tree\<close>

text \<open>The levels of a subtree count up from \<open>i\<close> at its root, one per generation.\<close>

fun levelled :: "nat \<Rightarrow> CostNode \<Rightarrow> bool" where
  "levelled i (CostNode nm lv c cs tc) \<longleftrightarrow> lv = i \<and> (\<forall>ch \<in> set cs. levelled (i + 1) ch)"

text \<open>No two children of a node of the subtree have the same name.\<close>

fun uniqueNames :: "CostNode \<Rightarrow> bool" where
  "uniqueNames (CostNode nm lv c cs tc) \<longleftrightarrow>
     distinct (map name cs) \<and> (\<forall>ch \<in> set cs. uniqueNames ch)"

subsection \<open>The traversal and the order of first occurrence\<close>

text \<open>
  The depth-first pre-order traversal of a subtree: every node with its category path,
  before its descendants, the children in their order in the tree.
\<close>

fun preorder :: "jsstring list \<Rightarrow> CostNode \<Rightarrow> (jsstring list \<times> CostNode) list" where
  "preorder path (CostNode nm lv c cs tc) =
     (path @ [nm], CostNode nm lv c cs tc) # concat (map (preorder (path @ [nm])) cs)"

text \<open>The test of \<open>extractCategories\<close> for pushing an option.\<close>

definition emitted :: "CostNode \<Rightarrow> bool" where
  "emitted n \<longleftrightarrow> 1 \<le> level n \<and> level n \<le> 3 \<and> 0 < totalCost n"

text \<open>The option that \<open>extractCategories\<close> pushes for a node at a path.\<close>

definition optionOf :: "jsstring list \<times> CostNode \<Rightarrow> CategoryOption" where
  "optionOf pn =
     \<lparr>optLevel = level (snd pn), optName = join (ascii '' > '') (fst pn), optPath = fst pn,
      optNode = snd pn\<rparr>"

text \<open>The elements of a list in the order of their first occurrences.\<close>

fun firstOccurrences :: "'a list \<Rightarrow> 'a list" where
  "firstOccurrences [] = []"
| "firstOccurrences (x # xs) = x # filter (\<lambda>y. y \<noteq> x) (firstOccurrences xs)"

subsection \<open>Exact sums\<close>

text \<open>
  Exact arithmetic, to state when the double additions of the program do not round.
  The rational that a finite number denotes:
\<close>

definition exactValue :: "number \<Rightarrow> rat" where
  "exactValue x = (case x of Finite q \<Rightarrow> q | _ \<Rightarrow> 0)"

text \<open>A finite number that is an integer.\<close>

definition isInteger :: "number \<Rightarrow> bool" where
  "isInteger x = (case x of Finite q \<Rightarrow> of_int \<lfloor>q\<rfloor> = q | _ \<Rightarrow> False)"

text \<open>
  The costs of all rows are integers, and their absolute values sum to \<open>2 ^ 53\<close> at
  most: every sum of some of them is an integer that a double represents exactly.
\<close>

definition safeIntegerAmounts :: "row list \<Rightarrow> bool" where
  "safeIntegerAmounts data \<longleftrightarrow>
     (\<forall>r \<in> set data. isInteger (rowCost r)) \<and>
     (\<Sum>r\<leftarrow>data. \<bar>exactValue (rowCost r)\<bar>) \<le> 2 ^ 53"

text \<open>The exact sum of the costs of a subtree, and of their absolute values.\<close>

fun treeSum :: "CostNode \<Rightarrow> rat" where
  "treeSum (CostNode nm lv c cs tc) = exactValue c + (\<Sum>ch\<leftarrow>cs. treeSum ch)"

fun treeAbs :: "CostNode \<Rightarrow> rat" where
  "treeAbs (CostNode nm lv c cs tc) = \<bar>exactValue c\<bar> + (\<Sum>ch\<leftarrow>cs. treeAbs ch)"

text \<open>All costs of a subtree are integers.\<close>

fun integerCosts :: "CostNode \<Rightarrow> bool" where
  "integerCosts (CostNode nm lv c cs tc) \<longleftrightarrow> isInteger c \<and> (\<forall>ch \<in> set cs. integerCosts ch)"

text \<open>The exact sum of the costs of the subtree at a path; 0 where there is no node.\<close>

definition treeSumAt :: "CostNode \<Rightarrow> jsstring list \<Rightarrow> rat" where
  "treeSumAt t p = (case lookup t p of None \<Rightarrow> 0 | Some n \<Rightarrow> treeSum n)"

subsection \<open>Values of binary64\<close>

text \<open>
  The finite values of binary64: multiples of the least unit \<open>2 powi - 1074\<close>, below
  \<open>2 ^ 1024\<close> in magnitude, with 53 significant bits at most.
\<close>

definition representable :: "rat \<Rightarrow> bool" where
  "representable q \<longleftrightarrow>
     of_int \<lfloor>q * 2 ^ 1074\<rfloor> = q * 2 ^ 1074 \<and> \<bar>q\<bar> < 2 ^ 1024 \<and>
     (q = 0 \<or> of_int \<lfloor>q / (2 powi (ilog2 q - 52))\<rfloor> = q / (2 powi (ilog2 q - 52)))"

text \<open>A number that is a value of binary64.\<close>

fun isDouble :: "number \<Rightarrow> bool" where
  "isDouble (Finite q) = representable q"
| "isDouble x = True"

text \<open>All costs of a subtree are values of binary64 other than the negative zero.\<close>

fun doubleCosts :: "CostNode \<Rightarrow> bool" where
  "doubleCosts (CostNode nm lv c cs tc) \<longleftrightarrow>
     isDouble c \<and> c \<noteq> NegZero \<and> (\<forall>ch \<in> set cs. doubleCosts ch)"

subsection \<open>Rows of the scenarios\<close>

text \<open>The scenario of two levels: three lines of a ledger.\<close>

definition twoLevelRows :: "row list" where
  "twoLevelRows =
     [csvRow [''Food'', ''Lunch'', [], [], [], [], ''50''],
      csvRow [''Food'', ''Dinner'', [], [], [], [], ''80''],
      csvRow [''Transport'', [], [], [], [], [], ''20'']]"

text \<open>A line whose six category cells are all empty.\<close>

definition blankLevelsRow :: row where
  "blankLevelsRow = csvRow [[], [], [], [], [], [], ''5'']"

text \<open>A line with a blank second level and a populated third level.\<close>

definition stopRow :: row where
  "stopRow = csvRow [''A'', [], ''X'', [], [], [], ''10'']"

text \<open>Two lines with the same category path.\<close>

definition lunchRows :: "row list" where
  "lunchRows =
     [csvRow [''Food'', ''Lunch'', [], [], [], [], ''10''],
      csvRow [''Food'', ''Lunch'', [], [], [], [], ''15'']]"

text \<open>A line whose cost cell is not a number.\<close>

definition unparsableRow :: row where
  "unparsableRow = csvRow [''A'', ''B'', [], [], [], [], ''N/A'']"

text \<open>A line whose cost cell is a number followed by letters.\<close>

definition prefixRow :: row where
  "prefixRow = csvRow [''A'', [], [], [], [], [], ''12abc'']"

text \<open>Three lines: a path of four levels, a category of cost 0, a second child.\<close>

definition deepRows :: "row list" where
  "deepRows =
     [csvRow [''Food'', ''Lunch'', ''a'', ''b'', [], [], ''50''],
      csvRow [''Free'', [], [], [], [], [], ''0''],
      csvRow [''Food'', ''Dinner'', [], [], [], [], ''80'']]"

text \<open>
  Three lines of one category whose costs are \<open>2 ^ 53\<close>, 1 and 1, in two orders.
\<close>

definition bigFirstRows :: "row list" where
  "bigFirstRows =
     [csvRow [''A'', [], [], [], [], [], ''9007199254740992''],
      csvRow [''A'', [], [], [], [], [], ''1''],
      csvRow [''A'', [], [], [], [], [], ''1'']]"

definition bigLastRows :: "row list" where
  "bigLastRows =
     [csvRow [''A'', [], [], [], [], [], ''1''],
      csvRow [''A'', [], [], [], [], [], ''1''],
      csvRow [''A'', [], [], [], [], [], ''9007199254740992'']]"

section \<open>Properties\<close>

text \<open>Evaluation: floors and ceilings of quotients of numerals.\<close>

lemma floor_rat_numeral_divide:
  "\<lfloor>numeral a / numeral b :: rat\<rfloor> = numeral a div numeral b"
  "\<lfloor>- (numeral a / numeral b) :: rat\<rfloor> = - numeral a div numeral b"
  "\<lceil>numeral a / numeral b :: rat\<rceil> = - (- numeral a div numeral b)"
  "\<lceil>- (numeral a / numeral b) :: rat\<rceil> = - (numeral a div numeral b)"
proof -
  show "\<lfloor>numeral a / numeral b :: rat\<rfloor> = numeral a div numeral b"
    by (metis floor_divide_of_int_eq of_int_numeral)
  show "\<lfloor>- (numeral a / numeral b) :: rat\<rfloor> = - numeral a div numeral b"
    by (metis floor_divide_of_int_eq of_int_numeral of_int_minus minus_divide_left)
  show "\<lceil>numeral a / numeral b :: rat\<rceil> = - (- numeral a div numeral b)"
    by (metis ceiling_def floor_divide_of_int_eq minus_divide_left of_int_minus of_int_numeral)
  show "\<lceil>- (numeral a / numeral b) :: rat\<rceil> = - (numeral a div numeral b)"
    by (metis ceiling_def floor_divide_of_int_eq of_int_numeral minus_minus)
qed

lemmas eval_defs =
  parseFloat_def ascii_def isWhiteSpace_def unsignedLiteral_def isDigit_def digitsValue_def
  exponentPart_def signedNumber_def round_double_def ilog2_def round_half_even_def Let_def
  compute_bitlen cellName_def csvRow_def levelKeys_def trim_def rowCost_def truthy_def
  processData_def addRow_def rootNode_def zero_number_def floor_rat_numeral_divide

lemma processData_twoLevelRows:
  "processData twoLevelRows =
     CostNode (ascii ''Total'') 0 0
       [CostNode (ascii ''Food'') 1 0
          [CostNode (ascii ''Lunch'') 2 (Finite 50) [] (Finite 50),
           CostNode (ascii ''Dinner'') 2 (Finite 80) [] (Finite 80)]
          (Finite 130),
        CostNode (ascii ''Transport'') 1 (Finite 20) [] (Finite 20)]
       (Finite 150)"
  by (simp add: twoLevelRows_def eval_defs)

subsection \<open>The arithmetic of doubles\<close>

text \<open>The exponent that \<open>ilog2\<close> computes is the one of its specification.\<close>

lemma pow2_le_iff: "(2::rat) powi a \<le> 2 powi b \<longleftrightarrow> a \<le> b"
proof
  assume "(2::rat) powi a \<le> 2 powi b"
  show "a \<le> b"
  proof (rule ccontr)
    assume "\<not> a \<le> b"
    then have "b < a" by simp
    then have "(2::rat) powi b < 2 powi a"
      by (rule power_int_strict_increasing) simp
    with \<open>(2::rat) powi a \<le> 2 powi b\<close> show False by simp
  qed
next
  assume "a \<le> b"
  then show "(2::rat) powi a \<le> 2 powi b"
    by (rule power_int_increasing) simp
qed

lemma pow2_less_iff: "(2::rat) powi a < 2 powi b \<longleftrightarrow> a < b"
  using pow2_le_iff [of b a] by (simp add: not_le [symmetric])

lemma pow2_add: "(2::rat) powi (a + b) = 2 powi a * 2 powi b"
  by (rule power_int_add) simp

lemma pow2_nat: "0 \<le> a \<Longrightarrow> (2::rat) powi a = of_int (2 ^ nat a)"
  by (simp add: power_int_nonneg_exp)

lemma ilog2_bounds:
  assumes "q \<noteq> 0"
  shows "2 powi (ilog2 q) \<le> \<bar>q\<bar>" and "\<bar>q\<bar> < 2 powi (ilog2 q + 1)"
proof -
  have "2 powi (ilog2 q) \<le> \<bar>q\<bar> \<and> \<bar>q\<bar> < 2 powi (ilog2 q + 1)"
  proof (cases "1 \<le> \<bar>q\<bar>")
    case True
    define n where "n = \<lfloor>\<bar>q\<bar>\<rfloor>"
    from True have n: "0 < n" by (simp add: n_def)
    have L: "ilog2 q = bitlen n - 1" using True by (simp add: ilog2_def n_def)
    from bitlen_bounds [OF n] have lo: "2 ^ nat (bitlen n - 1) \<le> n" and hi: "n < 2 ^ nat (bitlen n)"
      by simp_all
    from hi n have b1: "1 \<le> bitlen n"
      by (cases "bitlen n \<le> 0") auto
    have "2 powi (ilog2 q) = (of_int (2 ^ nat (bitlen n - 1)) :: rat)"
      using b1 by (simp add: L power_int_nonneg_exp)
    also from lo have "\<dots> \<le> of_int n"
      by (simp only: of_int_le_iff)
    also have "\<dots> \<le> \<bar>q\<bar>" by (simp add: n_def)
    finally have 1: "2 powi (ilog2 q) \<le> \<bar>q\<bar>" .
    have "\<bar>q\<bar> < of_int (n + 1)" by (simp add: n_def) linarith
    also from hi have "n + 1 \<le> 2 ^ nat (bitlen n)" by simp
    then have "(of_int (n + 1) :: rat) \<le> of_int (2 ^ nat (bitlen n))"
      by (simp only: of_int_le_iff)
    also have "(of_int (2 ^ nat (bitlen n)) :: rat) = 2 powi (ilog2 q + 1)"
      using b1 by (simp add: L power_int_nonneg_exp)
    finally have 2: "\<bar>q\<bar> < 2 powi (ilog2 q + 1)" .
    from 1 2 show ?thesis ..
  next
    case False
    define x where "x = 1 / \<bar>q\<bar>"
    from assms False have x1: "1 < x" by (simp add: x_def)
    define N where "N = \<lceil>x\<rceil>"
    from x1 have N2: "2 \<le> N" by (simp add: N_def)
    define k where "k = bitlen (N - 1)"
    have L: "ilog2 q = - k" using False by (simp add: ilog2_def k_def N_def x_def)
    from N2 have pos: "0 < N - 1" by simp
    from bitlen_bounds [OF pos] have lo: "2 ^ nat (k - 1) \<le> N - 1" and hi: "N - 1 < 2 ^ nat k"
      by (simp_all add: k_def)
    from hi pos have k1: "1 \<le> k"
      by (cases "k \<le> 0") auto
    have q: "\<bar>q\<bar> = 1 / x" using assms by (simp add: x_def)
    have "x \<le> of_int N" by (simp add: N_def)
    also from hi have "N \<le> 2 ^ nat k" by simp
    then have "(of_int N :: rat) \<le> of_int (2 ^ nat k)" by (simp only: of_int_le_iff)
    also have "(of_int (2 ^ nat k) :: rat) = 2 powi k"
      using k1 by (simp add: power_int_nonneg_exp)
    finally have "x \<le> 2 powi k" .
    with x1 have "1 / (2 powi k) \<le> 1 / x"
      by (intro divide_left_mono) simp_all
    then have 1: "2 powi (ilog2 q) \<le> \<bar>q\<bar>"
      by (simp add: L q power_int_minus_divide)
    have "(2::rat) powi (k - 1) = of_int (2 ^ nat (k - 1))"
      using k1 by (simp add: power_int_nonneg_exp)
    also from lo have "\<dots> \<le> of_int (N - 1)"
      by (simp only: of_int_le_iff)
    also have "\<dots> < x" by (simp add: N_def) linarith
    finally have "2 powi (k - 1) < x" .
    with x1 have "1 / x < 1 / (2 powi (k - 1))"
      by (intro divide_strict_left_mono mult_pos_pos) simp_all
    moreover have "(2::rat) powi (- k + 1) = 1 / (2 powi (k - 1))"
      using power_int_minus_divide [of "2::rat" "k - 1"] by simp
    ultimately have 2: "\<bar>q\<bar> < 2 powi (ilog2 q + 1)"
      by (simp add: L q)
    from 1 2 show ?thesis ..
  qed
  then show "2 powi (ilog2 q) \<le> \<bar>q\<bar>" and "\<bar>q\<bar> < 2 powi (ilog2 q + 1)"
    by simp_all
qed


text \<open>Rounding returns a representable value, and leaves a representable value as it is.\<close>

lemma round_half_even_Ints: "x \<in> \<int> \<Longrightarrow> of_int (round_half_even x) = x"
  by (auto simp: round_half_even_def Let_def elim!: Ints_cases)

lemma Ints_floor_iff: "of_int \<lfloor>x\<rfloor> = x \<longleftrightarrow> x \<in> \<int>" for x :: rat
  by (metis Ints_of_int floor_of_int Ints_cases)

lemma representable_iff:
  "representable q \<longleftrightarrow>
     q * 2 ^ 1074 \<in> \<int> \<and> \<bar>q\<bar> < 2 ^ 1024 \<and> (q = 0 \<or> q / (2 powi (ilog2 q - 52)) \<in> \<int>)"
  by (simp only: representable_def Ints_floor_iff)

lemma round_half_even_between: "\<lfloor>x\<rfloor> \<le> round_half_even x \<and> round_half_even x \<le> \<lceil>x\<rceil>"
proof -
  have "\<lfloor>x\<rfloor> + 1 \<le> \<lceil>x\<rceil>" if "0 < x - of_int \<lfloor>x\<rfloor>"
    using that by linarith
  then show ?thesis
    by (auto simp: round_half_even_def Let_def)
qed

lemma round_half_even_zero: "round_half_even x = 0 \<Longrightarrow> \<bar>x\<bar> \<le> 1 / 2"
  unfolding round_half_even_def Let_def
  by (auto split: if_splits) linarith+

lemma round_double_cases:
  fixes q :: rat
  defines "e \<equiv> max (ilog2 q - 52) (- 1074)"
  defines "r \<equiv> of_int (round_half_even (q / (2 powi e))) * (2 powi e)"
  shows "round_double q =
    (if 2 ^ 1024 \<le> \<bar>r\<bar> then (if 0 < q then PosInfinity else NegInfinity)
     else if r = 0 \<and> q < 0 then NegZero else Finite r)"
  by (simp add: round_double_def Let_def e_def r_def)

lemma round_double_representable_id:
  assumes "representable q" "q \<noteq> 0"
  shows "round_double q = Finite q"
proof -
  define e where "e = max (ilog2 q - 52) (- 1074)"
  from assms have a: "q * 2 ^ 1074 \<in> \<int>" and b: "\<bar>q\<bar> < 2 ^ 1024"
    and c: "q / (2 powi (ilog2 q - 52)) \<in> \<int>"
    by (simp_all add: representable_iff)
  have "q / (2 powi e) \<in> \<int>"
  proof (cases "- 1074 \<le> ilog2 q - 52")
    case True
    then have "e = ilog2 q - 52" unfolding e_def by arith
    with c show ?thesis by simp
  next
    case False
    then have "e = - 1074" unfolding e_def by arith
    moreover have "q / (2 powi (- 1074)) = q * 2 ^ 1074"
      by (simp only: power_int_minus_divide power_int_numeral divide_divide_eq_right mult_1)
    ultimately show ?thesis using a by (simp only:)
  qed
  then have "of_int (round_half_even (q / (2 powi e))) * (2 powi e) = q"
    by (simp add: round_half_even_Ints)
  with b assms(2) show ?thesis
    using round_double_cases [of q] by (simp add: e_def [symmetric])
qed


lemma Ints_abs_ge_one: "x \<in> \<int> \<Longrightarrow> x \<noteq> 0 \<Longrightarrow> 1 \<le> \<bar>x\<bar>" for x :: rat
proof -
  assume "x \<in> \<int>" "x \<noteq> 0"
  then obtain k :: int where k: "x = of_int k" "k \<noteq> 0" by (auto elim: Ints_cases)
  then have "1 \<le> \<bar>k\<bar>" by linarith
  then have "(1::rat) \<le> of_int \<bar>k\<bar>" by (simp only: of_int_1_le_iff)
  with k show ?thesis by simp
qed

lemma scaled_ge_one:
  assumes "q \<noteq> 0" "q * 2 ^ 1074 \<in> \<int>"
  defines "e \<equiv> max (ilog2 q - 52) (- 1074)"
  shows "1 \<le> \<bar>q / (2 powi e)\<bar>"
proof (cases "- 1074 \<le> ilog2 q - 52")
  case True
  then have e: "e = ilog2 q - 52" unfolding e_def by arith
  have "(2::rat) powi e * 1 \<le> 2 powi e * 2 powi 52"
    by (intro mult_left_mono) simp_all
  also have "\<dots> = 2 powi (ilog2 q)"
    using pow2_add [of e 52] by (simp add: e)
  also have "\<dots> \<le> \<bar>q\<bar>"
    using assms(1) by (rule ilog2_bounds)
  finally have "1 \<le> \<bar>q\<bar> / (2 powi e)"
    by (simp add: pos_le_divide_eq mult.commute)
  then show ?thesis by (simp add: abs_divide)
next
  case False
  then have "e = - 1074" unfolding e_def by arith
  moreover have "q / (2 powi (- 1074)) = q * 2 ^ 1074"
    by (simp only: power_int_minus_divide power_int_numeral divide_divide_eq_right mult_1)
  moreover from assms(1) have "q * 2 ^ 1074 \<noteq> 0"
    by (simp only: mult_eq_0_iff power_eq_0_iff) simp
  with assms(2) have "1 \<le> \<bar>q * 2 ^ 1074\<bar>"
    by (rule Ints_abs_ge_one)
  ultimately show ?thesis by (simp only:)
qed

lemma round_double_not_NegZero:
  assumes "q \<noteq> 0" "q * 2 ^ 1074 \<in> \<int>"
  shows "round_double q \<noteq> NegZero"
proof -
  define e where "e = max (ilog2 q - 52) (- 1074)"
  define m where "m = round_half_even (q / (2 powi e))"
  have "1 \<le> \<bar>q / (2 powi e)\<bar>"
    unfolding e_def using assms by (rule scaled_ge_one)
  have "m \<noteq> 0"
  proof
    assume "m = 0"
    then have "\<bar>q / (2 powi e)\<bar> \<le> 1 / 2"
      unfolding m_def by (rule round_half_even_zero)
    with \<open>1 \<le> \<bar>q / (2 powi e)\<bar>\<close> show False by linarith
  qed
  then have "of_int m * (2 powi e) \<noteq> (0::rat)" by simp
  then show ?thesis
    using round_double_cases [of q] by (simp add: e_def [symmetric] m_def [symmetric])
qed

lemma round_double_Finite_representable:
  assumes "round_double q = Finite r"
  shows "representable r"
proof (cases "r = 0")
  case True
  have "(0::rat) < 2 ^ 1024" by (rule zero_less_power) simp
  with True show ?thesis by (simp only: representable_iff) simp
next
  case False
  define e where "e = max (ilog2 q - 52) (- 1074)"
  define x where "x = q / (2 powi e)"
  define m where "m = round_half_even x"
  from assms have r: "r = of_int m * (2 powi e)" and small: "\<bar>r\<bar> < 2 ^ 1024"
    using round_double_cases [of q]
    by (simp_all add: e_def [symmetric] m_def x_def not_le split: if_splits)
  have e_ge: "- 1074 \<le> e" "ilog2 q - 52 \<le> e" unfolding e_def by simp_all
  have pe: "(0::rat) < 2 powi e" by simp
  from False r have m0: "m \<noteq> 0" by auto
  then have q0: "q \<noteq> 0" by (auto simp: m_def x_def round_half_even_def)
  \<comment> \<open>the scaled value is below \<open>2 ^ 53\<close>, and so is its rounding\<close>
  have "\<bar>q\<bar> < 2 powi (ilog2 q + 1)" using q0 by (rule ilog2_bounds)
  also have "\<dots> \<le> 2 powi (e + 53)"
    using e_ge(2) by (simp add: pow2_le_iff)
  also have "\<dots> = 2 powi e * 2 powi 53" by (rule pow2_add)
  finally have "\<bar>q\<bar> / (2 powi e) < 2 powi 53"
    using pe by (simp add: pos_divide_less_eq mult.commute)
  then have xb: "\<bar>x\<bar> < of_int (2 ^ 53)"
    by (simp add: x_def abs_divide)
  have "\<lfloor>x\<rfloor> \<le> m" "m \<le> \<lceil>x\<rceil>"
    using round_half_even_between [of x] by (simp_all add: m_def)
  moreover from xb have "- (2 ^ 53) \<le> \<lfloor>x\<rfloor>" by (simp add: le_floor_iff)
  moreover from xb have "\<lceil>x\<rceil> \<le> 2 ^ 53" by (simp add: ceiling_le_iff)
  ultimately have mb: "\<bar>m\<bar> \<le> 2 ^ 53" by linarith
  \<comment> \<open>the first conjunct: a multiple of the least unit\<close>
  have "r * 2 ^ 1074 = of_int m * (2 powi e * 2 powi 1074)"
    by (simp only: r power_int_numeral mult.assoc)
  also have "2 powi e * 2 powi 1074 = (2::rat) powi (e + 1074)"
    by (rule pow2_add [symmetric])
  also have "\<dots> = of_int (2 ^ nat (e + 1074))"
    using e_ge(1) by (intro pow2_nat) arith
  finally have c1: "r * 2 ^ 1074 \<in> \<int>"
    by (simp only: of_int_mult [symmetric] Ints_of_int)
  \<comment> \<open>the third conjunct: 53 significant bits\<close>
  define L where "L = ilog2 r"
  have "(of_int \<bar>m\<bar> :: rat) \<le> of_int (2 ^ 53)" using mb by (simp only: of_int_le_iff)
  then have "\<bar>of_int m :: rat\<bar> \<le> 2 powi 53" by simp
  then have "\<bar>r\<bar> \<le> 2 powi 53 * 2 powi e"
    unfolding r abs_mult using pe by (intro mult_mono) simp_all
  also have "\<dots> = 2 powi (53 + e)" by (rule pow2_add [symmetric])
  finally have rb: "\<bar>r\<bar> \<le> 2 powi (53 + e)" .
  have lo: "2 powi L \<le> \<bar>r\<bar>" unfolding L_def using False by (rule ilog2_bounds)
  from lo rb have "(2::rat) powi L \<le> 2 powi (53 + e)" by (rule order_trans)
  then have Lb: "L \<le> 53 + e" by (simp only: pow2_le_iff)
  have c3: "r / (2 powi (L - 52)) \<in> \<int>"
  proof (cases "L \<le> 52 + e")
    case True
    define d where "d = e - (L - 52)"
    from True have d: "0 \<le> d" by (simp add: d_def)
    have "(2::rat) powi e = 2 powi (d + (L - 52))" by (simp add: d_def)
    also have "\<dots> = 2 powi d * 2 powi (L - 52)" by (rule pow2_add)
    finally have "r / (2 powi (L - 52)) = of_int m * 2 powi d"
      by (simp add: r)
    also have "\<dots> = of_int (m * 2 ^ nat d)"
      using d by (simp add: power_int_nonneg_exp)
    finally show ?thesis by (simp only: Ints_of_int)
  next
    case False
    with Lb have L: "L = 53 + e" by simp
    from lo have "2 powi 53 * 2 powi e \<le> \<bar>of_int m :: rat\<bar> * 2 powi e"
      unfolding L r abs_mult using pow2_add [of 53 e] by simp
    with pe have "(2::rat) powi 53 \<le> \<bar>of_int m\<bar>" by simp
    then have "(of_int (2 ^ 53) :: rat) \<le> of_int \<bar>m\<bar>" by simp
    then have "2 ^ 53 \<le> \<bar>m\<bar>" by (simp only: of_int_le_iff)
    with mb have "m = 2 ^ 53 \<or> m = - (2 ^ 53)" by linarith
    then have half: "(of_int m :: rat) / 2 = of_int (m div 2)" by auto
    have "(2::rat) powi (L - 52) = 2 powi (1 + e)" by (simp add: L)
    also have "\<dots> = 2 * 2 powi e" using pow2_add [of 1 e] by simp
    finally have "r / (2 powi (L - 52)) = of_int m / 2"
      by (simp add: r)
    with half show ?thesis by (simp only: Ints_of_int)
  qed
  from c1 small c3 show ?thesis
    by (simp only: representable_iff L_def) simp
qed


lemma representable_zero: "representable 0"
proof -
  have "(0::rat) < 2 ^ 1024" by (rule zero_less_power) simp
  then show ?thesis by (simp only: representable_iff) simp
qed

lemma isDouble_round_double: "isDouble (round_double q)"
  by (cases "round_double q") (simp_all add: round_double_Finite_representable)

lemma isDouble_plus: "isDouble x \<Longrightarrow> isDouble y \<Longrightarrow> isDouble (x + y)"
  by (cases x; cases y) (simp_all add: isDouble_round_double representable_zero)

lemma plus_not_NegZero:
  assumes "isDouble x" "isDouble y" "x \<noteq> NegZero" "y \<noteq> NegZero"
  shows "x + y \<noteq> NegZero"
proof (cases x; cases y)
  fix a b assume x: "x = Finite a" and y: "y = Finite b"
  show ?thesis
  proof (cases "a + b = 0")
    case True
    with x y show ?thesis by simp
  next
    case False
    from assms(1,2) x y have "a * 2 ^ 1074 \<in> \<int>" "b * 2 ^ 1074 \<in> \<int>"
      by (simp_all only: isDouble.simps representable_iff)
    then have "a * 2 ^ 1074 + b * 2 ^ 1074 \<in> \<int>" by (rule Ints_add)
    then have "(a + b) * 2 ^ 1074 \<in> \<int>" by (simp only: distrib_right)
    with False have "round_double (a + b) \<noteq> NegZero"
      by (rule round_double_not_NegZero)
    with False x y show ?thesis by simp
  qed
qed (use assms in simp_all)

lemma plus_zero_right:
  assumes "isDouble x" "x \<noteq> NegZero"
  shows "x + 0 = x"
proof (cases x)
  case (Finite q)
  with assms(1) show ?thesis
    by (cases "q = 0") (simp_all add: zero_number_def round_double_representable_id)
qed (use assms in \<open>simp_all add: zero_number_def\<close>)

lemma isDouble_parseFloat: "isDouble (parseFloat s)"
  by (auto simp: parseFloat_def unsignedLiteral_def signedNumber_def Let_def
      isDouble_round_double representable_zero split: list.splits)

lemma rowCost_double: "isDouble (rowCost row) \<and> rowCost row \<noteq> NegZero"
  by (auto simp: rowCost_def Let_def truthy_def isDouble_parseFloat zero_number_def
      representable_zero)

text \<open>Addition is exact on integers up to \<open>2 ^ 53\<close>.\<close>

lemma ilog2_of_int:
  assumes "k \<noteq> 0"
  shows "ilog2 (of_int k) = bitlen \<bar>k\<bar> - 1"
proof -
  have "\<bar>of_int k :: rat\<bar> = of_int \<bar>k\<bar>" by simp
  moreover from assms have "1 \<le> \<bar>k\<bar>" by linarith
  then have "(1::rat) \<le> of_int \<bar>k\<bar>"
    by (simp only: of_int_1_le_iff)
  ultimately show ?thesis
    unfolding ilog2_def by (simp del: of_int_abs)
qed

lemma round_double_of_int:
  assumes "k \<noteq> 0" "\<bar>k\<bar> \<le> 2 ^ 53"
  shows "round_double (of_int k) = Finite (of_int k)"
proof -
  define b where "b = bitlen \<bar>k\<bar>"
  from assms(1) have pos: "0 < \<bar>k\<bar>" by simp
  from bitlen_bounds [OF pos] have lo: "2 ^ nat (b - 1) \<le> \<bar>k\<bar>" and hi: "\<bar>k\<bar> < 2 ^ nat b"
    by (simp_all add: b_def)
  from hi pos have b1: "1 \<le> b"
    by (cases "b \<le> 0") auto
  from lo assms(2) have p: "(2::int) ^ nat (b - 1) \<le> 2 ^ 53" by linarith
  have "nat (b - 1) \<le> 53"
  proof (rule power_le_imp_le_exp)
    show "(1::int) < 2" by simp
    show "(2::int) ^ nat (b - 1) \<le> 2 ^ 53" by (fact p)
  qed
  with b1 have b54: "b \<le> 54" by linarith
  define e where "e = max (ilog2 (of_int k) - 52) (- 1074)"
  from b1 have e: "e = b - 53"
    by (simp add: e_def ilog2_of_int [OF assms(1)] b_def [symmetric])
  have int: "(of_int k :: rat) / (2 powi e) \<in> \<int>"
  proof (cases "b \<le> 53")
    case True
    then have "(2::rat) powi e = 1 / 2 ^ nat (53 - b)"
      unfolding e by (simp add: power_int_def field_simps)
    then have "(of_int k :: rat) / (2 powi e) = of_int (k * 2 ^ nat (53 - b))"
      by simp
    then show ?thesis by (simp only: Ints_of_int)
  next
    case False
    with b54 have b: "b = 54" by simp
    with lo assms(2) have "\<bar>k\<bar> = 2 ^ 53" by simp
    then have "k = 2 ^ 53 \<or> k = - (2 ^ 53)" by linarith
    then have "(of_int k :: rat) / 2 = of_int (k div 2)"
      by auto
    with b e show ?thesis by (simp only: Ints_of_int) simp
  qed
  have r: "of_int (round_half_even (of_int k / (2 powi e))) * (2 powi e) = (of_int k :: rat)"
    by (simp add: round_half_even_Ints [OF int])
  have small: "\<not> (2 ^ 1024 \<le> \<bar>of_int k :: rat\<bar>)"
  proof -
    from assms(2) have "\<bar>of_int k :: rat\<bar> \<le> 2 ^ 53"
      by (metis of_int_abs of_int_le_iff of_int_numeral of_int_power)
    moreover have "(2::rat) ^ 53 < 2 ^ 1024" by simp
    ultimately show ?thesis by linarith
  qed
  from assms(1) have nz: "(of_int k :: rat) \<noteq> 0" by simp
  show ?thesis
    unfolding round_double_def Let_def e_def [symmetric] r using small nz by simp
qed

lemma add_integers_exact:
  assumes "a \<in> \<int>" "b \<in> \<int>" "\<bar>a + b\<bar> \<le> 2 ^ 53"
  shows "Finite a + Finite b = Finite (a + b)"
proof (cases "a + b = 0")
  case True
  then show ?thesis by simp
next
  case False
  from assms(1,2) have "a + b \<in> \<int>" by simp
  then obtain k where k: "a + b = of_int k" by (auto elim: Ints_cases)
  with False have "k \<noteq> 0" by auto
  moreover from assms(3) k have "\<bar>k\<bar> \<le> 2 ^ 53"
    by (metis of_int_abs of_int_le_iff of_int_numeral of_int_power)
  ultimately have "round_double (of_int k) = Finite (of_int k)"
    by (rule round_double_of_int)
  with False k show ?thesis by simp
qed


subsection \<open>One row: the node at every path after the walk\<close>

lemma name_walkLevels [simp]: "name (walkLevels ks i row c n) = name n"
  by (cases ks) (auto split: option.splits)

lemma level_walkLevels [simp]: "level (walkLevels ks i row c n) = level n"
  by (cases ks) (auto split: option.splits)

lemma totalCost_walkLevels [simp]: "totalCost (walkLevels ks i row c n) = totalCost n"
  by (cases ks) (auto split: option.splits)

lemma cost_walkLevels:
  "cost (walkLevels ks i row c n) = (if walkPath ks row = [] then cost n + c else cost n)"
  by (cases ks) (auto split: option.splits)

lemma find_append_single:
  "find P (xs @ [y]) =
     (case find P xs of None \<Rightarrow> (if P y then Some y else None) | Some x \<Rightarrow> Some x)"
  by (induction xs) auto

lemma find_updFirst_same:
  "(\<And>x. P x \<Longrightarrow> P (f x)) \<Longrightarrow> find P (updFirst P f xs) = map_option f (find P xs)"
  by (induction xs) auto

lemma find_updFirst_other:
  "(\<And>x. P x \<Longrightarrow> \<not> Q x \<and> \<not> Q (f x)) \<Longrightarrow> find Q (updFirst P f xs) = find Q xs"
  by (induction xs) auto

lemma find_Some_name: "find (\<lambda>ch. name ch = x) cs = Some ch \<Longrightarrow> name ch = x"
  by (induction cs) (auto split: if_splits)

lemma lookup_leaf: "lookup (CostNode nm lv c [] tc) p = (if p = [] then Some (CostNode nm lv c [] tc) else None)"
  by (cases p) auto

lemma lookup_walkLevels:
  "lookup (walkLevels ks i row c n) p =
     (if prefix p (walkPath ks row)
      then Some (walkLevels (drop (length p) ks) (i + length p) row c
                  (case lookup n p of
                     Some m \<Rightarrow> m
                   | None \<Rightarrow> CostNode (last p) (i + length p) 0 [] 0))
      else lookup n p)"
proof (induction ks arbitrary: i n p)
  case Nil
  show ?case by (cases p) auto
next
  case (Cons k ks)
  show ?case
  proof (cases p)
    case Nil
    then show ?thesis by simp
  next
    case (Cons x p')
    show ?thesis
    proof (cases "cellName row k")
      case None
      then show ?thesis using Cons by simp
    next
      case (Some nm)
      show ?thesis
      proof (cases "x = nm")
        case True
        show ?thesis
        proof (cases "find (\<lambda>ch. name ch = nm) (children n)")
          case None
          then show ?thesis
            using Some Cons True Cons.IH [of "i + 1" "CostNode nm (i + 1) 0 [] 0" p']
            by (auto simp: find_append_single lookup_leaf)
        next
          case (Some ch)
          then show ?thesis
            using \<open>cellName row k = Some nm\<close> Cons True Cons.IH [of "i + 1" ch p']
            by (cases "p' = []") (auto simp: find_updFirst_same split: option.splits)
        qed
      next
        case False
        then show ?thesis
          using Some Cons
          by (auto simp: find_append_single find_updFirst_other split: option.splits)
      qed
    qed
  qed
qed


lemma walkPath_drop:
  "prefix p (walkPath ks row) \<Longrightarrow>
   walkPath (drop (length p) ks) row = drop (length p) (walkPath ks row)"
proof (induction ks arbitrary: p)
  case Nil
  then show ?case by simp
next
  case (Cons k ks)
  then show ?case
    by (cases p; cases "cellName row k") auto
qed

lemma walkPath_drop_Nil:
  "prefix p (walkPath ks row) \<Longrightarrow>
   walkPath (drop (length p) ks) row = [] \<longleftrightarrow> walkPath ks row = p"
  by (auto simp: walkPath_drop prefix_def)

lemma lookup_addRow:
  "lookup (addRow t row) p =
     (if prefix p (rowPath row)
      then Some (walkLevels (drop (length p) levelKeys) (length p) row (rowCost row)
                  (case lookup t p of
                     Some m \<Rightarrow> m
                   | None \<Rightarrow> CostNode (last p) (length p) 0 [] 0))
      else lookup t p)"
  unfolding addRow_def rowPath_def by (simp add: lookup_walkLevels cong: option.case_cong)

lemma costAt_addRow:
  "costAt (addRow t row) p =
     (if rowPath row = p then costAt t p + rowCost row else costAt t p)"
proof (cases "prefix p (rowPath row)")
  case True
  then have "walkPath (drop (length p) levelKeys) row = [] \<longleftrightarrow> rowPath row = p"
    unfolding rowPath_def by (rule walkPath_drop_Nil)
  with True show ?thesis
    by (auto simp: costAt_def lookup_addRow cost_walkLevels split: option.splits)
next
  case False
  then show ?thesis
    by (auto simp: costAt_def lookup_addRow)
qed

lemma costAt_foldl_addRow:
  "costAt (foldl addRow t data) p =
     foldl (+) (costAt t p) (map rowCost (filter (\<lambda>r. rowPath r = p) data))"
  by (induction data arbitrary: t) (simp_all add: costAt_addRow)

lemma exists_addRow:
  "lookup (addRow t row) p \<noteq> None \<longleftrightarrow> lookup t p \<noteq> None \<or> prefix p (rowPath row)"
  by (simp add: lookup_addRow)

lemma exists_foldl_addRow:
  "lookup (foldl addRow t data) p \<noteq> None \<longleftrightarrow>
     lookup t p \<noteq> None \<or> (\<exists>r \<in> set data. prefix p (rowPath r))"
proof (induction data arbitrary: t)
  case Nil
  show ?case by simp
next
  case (Cons r data)
  have "lookup (foldl addRow t (r # data)) p \<noteq> None \<longleftrightarrow>
        lookup (addRow t r) p \<noteq> None \<or> (\<exists>r \<in> set data. prefix p (rowPath r))"
    using Cons.IH [of "addRow t r"] by simp
  also have "\<dots> \<longleftrightarrow> lookup t p \<noteq> None \<or> (\<exists>r \<in> set (r # data). prefix p (rowPath r))"
    unfolding exists_addRow by auto
  finally show ?case .
qed

lemma lookup_rootNode: "lookup rootNode p = (if p = [] then Some rootNode else None)"
  unfolding rootNode_def by (rule lookup_leaf)

text \<open>\<open>calculateTotal\<close> changes the totals only.\<close>

lemma name_calculateTotal [simp]: "name (calculateTotal n) = name n"
  by (cases n) (simp add: Let_def)

lemma level_calculateTotal [simp]: "level (calculateTotal n) = level n"
  by (cases n) (simp add: Let_def)

lemma cost_calculateTotal [simp]: "cost (calculateTotal n) = cost n"
  by (cases n) (simp add: Let_def)

lemma children_calculateTotal [simp]:
  "children (calculateTotal n) = map calculateTotal (children n)"
  by (cases n) (simp add: Let_def)

lemma find_map_name:
  "(\<And>x. name (f x) = name x) \<Longrightarrow>
   find (\<lambda>ch. name ch = y) (map f cs) = map_option f (find (\<lambda>ch. name ch = y) cs)"
  by (induction cs) auto

lemma lookup_calculateTotal:
  "lookup (calculateTotal t) p = map_option calculateTotal (lookup t p)"
proof (induction p arbitrary: t)
  case Nil
  show ?case by simp
next
  case (Cons x p)
  show ?case
    by (cases "find (\<lambda>ch. name ch = x) (children t)") (simp_all add: find_map_name Cons.IH)
qed

lemma costAt_calculateTotal [simp]: "costAt (calculateTotal t) p = costAt t p"
  by (simp add: costAt_def lookup_calculateTotal split: option.splits)


subsection \<open>The totals\<close>

lemma calculateTotal_nodes:
  "n \<in> set (nodes (calculateTotal t)) \<Longrightarrow>
   totalCost n = cost n + foldl (\<lambda>sum child. sum + totalCost child) 0 (children n)"
proof (induction t rule: calculateTotal.induct)
  case (1 nm lv c cs tc)
  then show ?case by (auto simp: Let_def)
qed

text \<open>
  C1. In the tree that \<open>processData\<close> returns, the total of every node is its own cost
  plus the sum of the totals of its children, the sum that \<open>reduce\<close> accumulates from 0
  in the order of the children.
\<close>

theorem aggregation_invariant:
  "\<forall>n \<in> set (nodes (processData data)).
     totalCost n = cost n + foldl (\<lambda>sum child. sum + totalCost child) 0 (children n)"
  unfolding processData_def by (blast intro: calculateTotal_nodes)

theorem aggregation_invariant_witness:
  "CostNode (ascii ''Food'') 1 0
     [CostNode (ascii ''Lunch'') 2 (Finite 50) [] (Finite 50),
      CostNode (ascii ''Dinner'') 2 (Finite 80) [] (Finite 80)]
     (Finite 130) \<in> set (nodes (processData twoLevelRows)) \<and>
   Finite 130 = 0 + foldl (\<lambda>sum child. sum + totalCost child) 0
     [CostNode (ascii ''Lunch'') 2 (Finite 50) [] (Finite 50),
      CostNode (ascii ''Dinner'') 2 (Finite 80) [] (Finite 80)]"
proof -
  let ?food = "CostNode (ascii ''Food'') 1 0
     [CostNode (ascii ''Lunch'') 2 (Finite 50) [] (Finite 50),
      CostNode (ascii ''Dinner'') 2 (Finite 80) [] (Finite 80)]
     (Finite 130)"
  have mem: "?food \<in> set (nodes (processData twoLevelRows))"
    by (simp add: processData_twoLevelRows)
  from aggregation_invariant [of twoLevelRows] mem
  have "totalCost ?food = cost ?food
          + foldl (\<lambda>sum child. sum + totalCost child) 0 (children ?food)"
    by blast
  with mem show ?thesis by simp
qed

subsection \<open>The root\<close>

lemma rowPath_Nil_iff: "rowPath row = [] \<longleftrightarrow> cellName row Level1 = None"
  by (simp add: rowPath_def levelKeys_def split: option.splits)

lemma costAt_Nil [simp]: "costAt t [] = cost t"
  by (simp add: costAt_def)

text \<open>
  C5, as the code has it. The root of the tree that \<open>processData\<close> returns has the
  name \<open>Total\<close> and the level 0, and its own cost is what the rows with a blank first
  level added to it, accumulated from 0 in the order of the rows: 0 when there is no
  such row.
\<close>

theorem root_fields:
  "name (processData data) = ascii ''Total'' \<and>
   level (processData data) = 0 \<and>
   cost (processData data) =
     foldl (+) 0 (map rowCost (filter (\<lambda>r. cellName r Level1 = None) data))"
proof -
  have n: "name (foldl addRow t data) = name t" and l: "level (foldl addRow t data) = level t" for t
    by (induction data arbitrary: t) (simp_all add: addRow_def)
  have "cost (processData data) = costAt (foldl addRow rootNode data) []"
    by (simp add: processData_def)
  also have "\<dots> = foldl (+) 0 (map rowCost (filter (\<lambda>r. rowPath r = []) data))"
    unfolding costAt_foldl_addRow by (simp add: rootNode_def)
  finally show ?thesis
    by (simp add: processData_def n l rowPath_Nil_iff) (simp add: rootNode_def)
qed

text \<open>
  C5, as the claim has it, fails: one line with six blank category cells and the cost 5
  leaves the cost 5 at the root.
\<close>

theorem root_cost_counterexample:
  "cost (processData [blankLevelsRow]) = Finite 5 \<and> cost (processData [blankLevelsRow]) \<noteq> 0"
  by (simp add: blankLevelsRow_def eval_defs)

subsection \<open>Blank levels\<close>

lemma walkPath_take:
  "k < length ks \<Longrightarrow> cellName row (ks ! k) = None \<Longrightarrow>
   \<forall>j<k. cellName row (ks ! j) \<noteq> None \<Longrightarrow>
   walkPath ks row = map (\<lambda>key. the (cellName row key)) (take k ks)"
proof (induction ks arbitrary: k)
  case Nil
  then show ?case by simp
next
  case (Cons a ks)
  show ?case
  proof (cases k)
    case 0
    with Cons.prems show ?thesis by simp
  next
    case (Suc k')
    from Cons.prems(3) Suc have a: "cellName row a \<noteq> None" by auto
    from Cons.prems(3) Suc have "\<forall>j<k'. cellName row (ks ! j) \<noteq> None" by auto
    with Cons.prems(1,2) Suc
    have "walkPath ks row = map (\<lambda>key. the (cellName row key)) (take k' ks)"
      by (intro Cons.IH) auto
    with a Suc show ?thesis by auto
  qed
qed

lemma walkLevels_agree:
  "k < length ks \<Longrightarrow> cellName row (ks ! k) = None \<Longrightarrow>
   \<forall>j\<le>k. cellName row' (ks ! j) = cellName row (ks ! j) \<Longrightarrow>
   walkLevels ks i row' c n = walkLevels ks i row c n"
proof (induction ks arbitrary: k i n)
  case Nil
  then show ?case by simp
next
  case (Cons a ks)
  from Cons.prems(3) have a: "cellName row' a = cellName row a" by auto
  show ?case
  proof (cases k)
    case 0
    with Cons.prems a show ?thesis by simp
  next
    case (Suc k')
    from Cons.prems(3) Suc
    have "\<forall>j\<le>k'. cellName row' (ks ! j) = cellName row (ks ! j)" by auto
    with Cons.prems(1,2) Suc
    have "walkLevels ks i' row' c n' = walkLevels ks i' row c n'" for i' n'
      by (intro Cons.IH [of k']) auto
    then have "walkLevels ks i' row' c = walkLevels ks i' row c" for i'
      by (intro ext)
    with a show ?thesis by (simp split: option.splits)
  qed
qed

lemma children_walkLevels_Nil:
  "walkPath ks row = [] \<Longrightarrow> children (walkLevels ks i row c n) = children n"
  by (cases ks) (auto split: option.splits)

text \<open>
  C4. Let the level of index \<open>k\<close> (counted from 0) be the first blank level of a row.
  Then the path of the row is the trimmed names of the \<open>k\<close> levels before it; the walk
  ends at the node of that path and adds the cost of the row to the cost of that node
  (0 for a node that the row creates), whose children stay as they were; no node at any
  other path than the prefixes of this one is created or changed; and the row gives
  the same tree as every row that agrees with it on the cost and on the levels up to
  \<open>k\<close>, whatever the levels after \<open>k\<close> hold.
\<close>

theorem blank_level_stop:
  assumes k: "k < length levelKeys"
    and blank: "cellName row (levelKeys ! k) = None"
    and before: "\<forall>j<k. cellName row (levelKeys ! j) \<noteq> None"
  shows "rowPath row = map (\<lambda>key. the (cellName row key)) (take k levelKeys) \<and>
    (\<exists>m. lookup (addRow t row) (rowPath row) = Some m \<and>
         cost m = costAt t (rowPath row) + rowCost row \<and>
         children m = (case lookup t (rowPath row) of None \<Rightarrow> [] | Some n \<Rightarrow> children n)) \<and>
    (\<forall>p. \<not> prefix p (rowPath row) \<longrightarrow> lookup (addRow t row) p = lookup t p) \<and>
    (\<forall>row'. (\<forall>j\<le>k. cellName row' (levelKeys ! j) = cellName row (levelKeys ! j)) \<and>
        rowCost row' = rowCost row \<longrightarrow> addRow t row' = addRow t row)"
proof (intro conjI allI impI)
  show "rowPath row = map (\<lambda>key. the (cellName row key)) (take k levelKeys)"
    unfolding rowPath_def using k blank before by (rule walkPath_take)
next
  have stop: "walkPath (drop (length (rowPath row)) levelKeys) row = []"
    using walkPath_drop_Nil [of "rowPath row" levelKeys row] by (simp add: rowPath_def)
  show "\<exists>m. lookup (addRow t row) (rowPath row) = Some m \<and>
         cost m = costAt t (rowPath row) + rowCost row \<and>
         children m = (case lookup t (rowPath row) of None \<Rightarrow> [] | Some n \<Rightarrow> children n)"
    using stop
    by (auto simp: lookup_addRow costAt_def cost_walkLevels children_walkLevels_Nil
        split: option.splits)
next
  fix p assume "\<not> prefix p (rowPath row)"
  then show "lookup (addRow t row) p = lookup t p"
    by (simp add: lookup_addRow)
next
  fix row'
  assume "(\<forall>j\<le>k. cellName row' (levelKeys ! j) = cellName row (levelKeys ! j)) \<and>
    rowCost row' = rowCost row"
  then have agree: "\<forall>j\<le>k. cellName row' (levelKeys ! j) = cellName row (levelKeys ! j)"
    and c: "rowCost row' = rowCost row"
    by blast+
  show "addRow t row' = addRow t row"
    unfolding addRow_def c using k blank agree by (rule walkLevels_agree)
qed


lemma stopRow_cells:
  "cellName stopRow Level1 = Some (ascii ''A'')" "cellName stopRow Level2 = None"
  "rowCost stopRow = Finite 10"
  by (simp_all add: stopRow_def eval_defs)

lemma processData_stopRow:
  "processData [stopRow] =
     CostNode (ascii ''Total'') 0 0 [CostNode (ascii ''A'') 1 (Finite 10) [] (Finite 10)]
       (Finite 10)"
  by (simp add: stopRow_def eval_defs)

text \<open>
  The row of the claim: \<open>A\<close>, a blank second level, \<open>X\<close> at the third level and the
  cost 10. All of the 10 is at \<open>A\<close>, and there is no node \<open>X\<close>.
\<close>

theorem blank_level_stop_witness:
  "rowPath stopRow = [ascii ''A''] \<and>
   (\<exists>m. lookup (addRow rootNode stopRow) [ascii ''A''] = Some m \<and>
        cost m = Finite 10 \<and> children m = []) \<and>
   lookup (addRow rootNode stopRow) [ascii ''A'', ascii ''X''] = None \<and>
   lookup (addRow rootNode stopRow) [ascii ''X''] = None \<and>
   processData [stopRow] =
     CostNode (ascii ''Total'') 0 0 [CostNode (ascii ''A'') 1 (Finite 10) [] (Finite 10)]
       (Finite 10)"
proof -
  have k: "(1::nat) < length levelKeys" "cellName stopRow (levelKeys ! 1) = None"
    "\<forall>j<1. cellName stopRow (levelKeys ! j) \<noteq> None"
    by (simp_all add: levelKeys_def stopRow_cells)
  note th = blank_level_stop [OF k, of rootNode]
  have p: "rowPath stopRow = [ascii ''A'']"
    using th [THEN conjunct1] by (simp add: levelKeys_def stopRow_cells)
  have z: "0 + Finite 10 = Finite 10"
    by (simp add: eval_defs)
  have ne: "ascii ''A'' \<noteq> ascii ''X''"
    by (simp add: ascii_def)
  have unchanged: "\<not> prefix q (rowPath stopRow) \<Longrightarrow>
    lookup (addRow rootNode stopRow) q = lookup rootNode q" for q
    using th [THEN conjunct2, THEN conjunct2, THEN conjunct1] by blast
  have "\<exists>m. lookup (addRow rootNode stopRow) [ascii ''A''] = Some m \<and>
        cost m = Finite 10 \<and> children m = []"
    using th [THEN conjunct2, THEN conjunct1] z
    by (simp add: p costAt_def lookup_rootNode stopRow_cells del: lookup.simps)
  moreover have "lookup (addRow rootNode stopRow) [ascii ''A'', ascii ''X''] = None"
    using unchanged [of "[ascii ''A'', ascii ''X'']"] by (simp add: p lookup_rootNode del: lookup.simps)
  moreover have "lookup (addRow rootNode stopRow) [ascii ''X''] = None"
    using unchanged [of "[ascii ''X'']"] ne by (simp add: p lookup_rootNode del: lookup.simps)
  ultimately show ?thesis using p processData_stopRow by simp
qed


subsection \<open>Sibling names\<close>

lemma map_name_updFirst:
  "(\<And>x. name (f x) = name x) \<Longrightarrow> map name (updFirst P f cs) = map name cs"
  by (induction cs) auto

lemma set_updFirst: "set (updFirst P f cs) \<subseteq> set cs \<union> f ` set cs"
  by (induction cs) auto

lemma find_name_None: "find (\<lambda>ch. name ch = x) cs = None \<longleftrightarrow> x \<notin> set (map name cs)"
  by (induction cs) auto

lemma uniqueNames_alt:
  "uniqueNames n \<longleftrightarrow> distinct (map name (children n)) \<and> (\<forall>ch \<in> set (children n). uniqueNames ch)"
  by (cases n) simp

lemma uniqueNames_walkLevels: "uniqueNames n \<Longrightarrow> uniqueNames (walkLevels ks i row c n)"
proof (induction ks arbitrary: i n)
  case Nil
  then show ?case by (simp add: uniqueNames_alt [of n])
next
  case (Cons k ks)
  show ?case
  proof (cases "cellName row k")
    case None
    with Cons.prems show ?thesis by (simp add: uniqueNames_alt [of n])
  next
    case (Some nm)
    show ?thesis
    proof (cases "find (\<lambda>ch. name ch = nm) (children n)")
      case None
      have "uniqueNames (walkLevels ks (i + 1) row c (CostNode nm (i + 1) 0 [] 0))"
        by (rule Cons.IH) simp
      moreover from None have "nm \<notin> set (map name (children n))"
        by (simp add: find_name_None)
      ultimately show ?thesis
        using None Some Cons.prems by (simp add: uniqueNames_alt [of n])
    next
      case (Some ch)
      have "uniqueNames x"
        if "x \<in> set (updFirst (\<lambda>ch. name ch = nm) (walkLevels ks (i + 1) row c) (children n))"
        for x
        using that set_updFirst [of "\<lambda>ch. name ch = nm" "walkLevels ks (i + 1) row c" "children n"]
          Cons.prems Cons.IH
        by (auto simp: uniqueNames_alt [of n])
      with Some \<open>cellName row k = Some nm\<close> Cons.prems show ?thesis
        by (simp add: uniqueNames_alt [of n] map_name_updFirst)
    qed
  qed
qed

lemma uniqueNames_foldl_addRow: "uniqueNames t \<Longrightarrow> uniqueNames (foldl addRow t data)"
  by (induction data arbitrary: t) (simp_all add: addRow_def uniqueNames_walkLevels)

lemma uniqueNames_calculateTotal: "uniqueNames t \<Longrightarrow> uniqueNames (calculateTotal t)"
proof (induction t rule: calculateTotal.induct)
  case (1 nm lv c cs tc)
  then show ?case by (auto simp: Let_def comp_def)
qed

lemma uniqueNames_processData: "uniqueNames (processData data)"
  unfolding processData_def
  by (intro uniqueNames_calculateTotal uniqueNames_foldl_addRow) (simp add: rootNode_def)

lemma uniqueNames_nodes:
  "uniqueNames t \<Longrightarrow> n \<in> set (nodes t) \<Longrightarrow> distinct (map name (children n))"
proof (induction t rule: nodes.induct)
  case (1 nm lv c cs tc)
  then show ?case by auto
qed

lemma lookup_processData_cost:
  assumes "lookup (processData data) p = Some n"
  shows "cost n = foldl (+) 0 (map rowCost (filter (\<lambda>r. rowPath r = p) data))"
proof -
  from assms have "cost n = costAt (processData data) p"
    by (simp add: costAt_def)
  also have "\<dots> = costAt (foldl addRow rootNode data) p"
    by (simp add: processData_def)
  also have "costAt rootNode p = 0"
    by (simp add: costAt_def lookup_rootNode) (simp add: rootNode_def)
  then have "costAt (foldl addRow rootNode data) p =
      foldl (+) 0 (map rowCost (filter (\<lambda>r. rowPath r = p) data))"
    by (simp add: costAt_foldl_addRow)
  finally show ?thesis .
qed

text \<open>
  C9. No two children of a node of the tree that \<open>processData\<close> returns have the same
  name, and the cost of the node at a path is the costs of all rows of that path,
  accumulated from 0 in the order of the rows.
\<close>

theorem sibling_names_unique:
  "(\<forall>n \<in> set (nodes (processData data)). distinct (map name (children n))) \<and>
   (\<forall>p n. lookup (processData data) p = Some n \<longrightarrow>
      cost n = foldl (+) 0 (map rowCost (filter (\<lambda>r. rowPath r = p) data)))"
proof (intro conjI ballI allI impI)
  fix n assume "n \<in> set (nodes (processData data))"
  with uniqueNames_processData show "distinct (map name (children n))"
    by (rule uniqueNames_nodes)
next
  fix p n assume "lookup (processData data) p = Some n"
  then show "cost n = foldl (+) 0 (map rowCost (filter (\<lambda>r. rowPath r = p) data))"
    by (rule lookup_processData_cost)
qed


lemma processData_lunchRows:
  "processData lunchRows =
     CostNode (ascii ''Total'') 0 0
       [CostNode (ascii ''Food'') 1 0
          [CostNode (ascii ''Lunch'') 2 (Finite 25) [] (Finite 25)] (Finite 25)]
       (Finite 25)"
  by (simp add: lunchRows_def eval_defs)

text \<open>
  The two rows \<open>Food\<close>, \<open>Lunch\<close> with the costs 10 and 15: one node \<open>Lunch\<close>, of
  cost 25.
\<close>

theorem sibling_names_unique_witness:
  "CostNode (ascii ''Food'') 1 0
     [CostNode (ascii ''Lunch'') 2 (Finite 25) [] (Finite 25)] (Finite 25)
     \<in> set (nodes (processData lunchRows)) \<and>
   distinct (map name [CostNode (ascii ''Lunch'') 2 (Finite 25) [] (Finite 25)]) \<and>
   lookup (processData lunchRows) [ascii ''Food'', ascii ''Lunch''] =
     Some (CostNode (ascii ''Lunch'') 2 (Finite 25) [] (Finite 25)) \<and>
   Finite 25 =
     foldl (+) 0 (map rowCost
       (filter (\<lambda>r. rowPath r = [ascii ''Food'', ascii ''Lunch'']) lunchRows))"
proof -
  let ?lunch = "CostNode (ascii ''Lunch'') 2 (Finite 25) [] (Finite 25)"
  let ?food = "CostNode (ascii ''Food'') 1 0 [?lunch] (Finite 25)"
  have mem: "?food \<in> set (nodes (processData lunchRows))"
    by (simp add: processData_lunchRows)
  have at: "lookup (processData lunchRows) [ascii ''Food'', ascii ''Lunch''] = Some ?lunch"
    by (simp add: processData_lunchRows)
  note th = sibling_names_unique [of lunchRows]
  from th [THEN conjunct1] mem have "distinct (map name (children ?food))"
    by blast
  moreover from th [THEN conjunct2] at
  have "cost ?lunch = foldl (+) 0 (map rowCost
       (filter (\<lambda>r. rowPath r = [ascii ''Food'', ascii ''Lunch'']) lunchRows))"
    by blast
  ultimately show ?thesis using mem at by simp
qed

section \<open>Properties of the category index\<close>

subsection \<open>Levels, and the traversal as a filter of the pre-order\<close>

lemma levelled_alt:
  "levelled i n \<longleftrightarrow> level n = i \<and> (\<forall>ch \<in> set (children n). levelled (i + 1) ch)"
  by (cases n) simp

lemma preorder_alt:
  "preorder path n =
     (path @ [name n], n) # concat (map (preorder (path @ [name n])) (children n))"
  by (cases n) simp

lemma levelled_preorder:
  "levelled i n \<Longrightarrow> (q, m) \<in> set (preorder path n) \<Longrightarrow> i \<le> level m"
proof (induction path n arbitrary: i rule: preorder.induct)
  case (1 path nm lv c cs tc)
  from "1.prems"(2) consider "m = CostNode nm lv c cs tc"
    | ch where "ch \<in> set cs" "(q, m) \<in> set (preorder (path @ [nm]) ch)"
    by auto
  then show ?case
  proof cases
    case 1
    with "1.prems"(1) show ?thesis by simp
  next
    case 2
    with "1.prems"(1) have "levelled (i + 1) ch" by simp
    with 2 "1.IH" have "i + 1 \<le> level m" by blast
    then show ?thesis by simp
  qed
qed

lemma deep_not_emitted:
  assumes "levelled i n" "3 \<le> level n"
  shows "filter (\<lambda>pn. emitted (snd pn)) (concat (map (preorder q) (children n))) = []"
proof -
  have "\<not> emitted m" if "ch \<in> set (children n)" "(r, m) \<in> set (preorder q ch)" for ch r m
  proof -
    from assms(1) that(1) have "levelled (i + 1) ch" "level n = i"
      by (simp_all add: levelled_alt [of i n])
    with that(2) have "i + 1 \<le> level m"
      by (blast intro: levelled_preorder)
    with \<open>level n = i\<close> assms(2) show ?thesis
      by (simp add: emitted_def)
  qed
  then show ?thesis
    by (auto simp: filter_empty_conv)
qed

lemma extractCategories_preorder:
  "levelled i n \<Longrightarrow>
   extractCategories n path =
     map optionOf (filter (\<lambda>pn. emitted (snd pn)) (preorder path n))"
proof (induction n path arbitrary: i rule: extractCategories.induct)
  case (1 nm lv c cs tc path)
  let ?n = "CostNode nm lv c cs tc"
  have head: "(if 1 \<le> lv \<and> lv \<le> 3 \<and> 0 < tc then
        [\<lparr>optLevel = lv, optName = join (ascii '' > '') (path @ [nm]), optPath = path @ [nm],
          optNode = ?n\<rparr>]
      else []) = map optionOf (filter (\<lambda>pn. emitted (snd pn)) [(path @ [nm], ?n)])"
    by (simp add: emitted_def optionOf_def)
  have tail: "(if lv < 3 then concat (map (\<lambda>child. extractCategories child (path @ [nm])) cs)
        else []) =
      map optionOf (filter (\<lambda>pn. emitted (snd pn)) (concat (map (preorder (path @ [nm])) cs)))"
  proof (cases "lv < 3")
    case True
    have "extractCategories ch (path @ [nm]) =
        map optionOf (filter (\<lambda>pn. emitted (snd pn)) (preorder (path @ [nm]) ch))"
      if "ch \<in> set cs" for ch
      using "1.IH" [OF True that, of "i + 1"] "1.prems" that by simp
    then have eq: "map (\<lambda>child. extractCategories child (path @ [nm])) cs =
        map (\<lambda>ch. map optionOf (filter (\<lambda>pn. emitted (snd pn)) (preorder (path @ [nm]) ch))) cs"
      by (intro map_cong refl)
    show ?thesis
      unfolding eq using True by (simp add: map_concat filter_concat comp_def)
  next
    case False
    then have "3 \<le> level ?n" by simp
    with "1.prems" have "filter (\<lambda>pn. emitted (snd pn))
        (concat (map (preorder (path @ [nm])) (children ?n))) = []"
      by (rule deep_not_emitted)
    with False show ?thesis by simp
  qed
  show ?case
    unfolding extractCategories.simps head tail by simp
qed


lemma levelled_walkLevels: "levelled i n \<Longrightarrow> levelled i (walkLevels ks i row c n)"
proof (induction ks arbitrary: i n)
  case Nil
  then show ?case by (simp add: levelled_alt [of i n])
next
  case (Cons k ks)
  show ?case
  proof (cases "cellName row k")
    case None
    with Cons.prems show ?thesis by (simp add: levelled_alt [of i n])
  next
    case (Some nm)
    show ?thesis
    proof (cases "find (\<lambda>ch. name ch = nm) (children n)")
      case None
      have "levelled (i + 1) (walkLevels ks (i + 1) row c (CostNode nm (i + 1) 0 [] 0))"
        by (rule Cons.IH) simp
      with None Some Cons.prems show ?thesis
        by (simp add: levelled_alt [of i n])
    next
      case (Some ch)
      have "levelled (i + 1) x"
        if "x \<in> set (updFirst (\<lambda>ch. name ch = nm) (walkLevels ks (i + 1) row c) (children n))"
        for x
        using that set_updFirst [of "\<lambda>ch. name ch = nm" "walkLevels ks (i + 1) row c" "children n"]
          Cons.prems Cons.IH [of "i + 1"]
        by (auto simp: levelled_alt [of i n])
      with Some \<open>cellName row k = Some nm\<close> Cons.prems show ?thesis
        by (simp add: levelled_alt [of i n])
    qed
  qed
qed

lemma levelled_foldl_addRow: "levelled 0 t \<Longrightarrow> levelled 0 (foldl addRow t data)"
  by (induction data arbitrary: t) (simp_all add: addRow_def levelled_walkLevels)

lemma levelled_calculateTotal: "levelled i t \<Longrightarrow> levelled i (calculateTotal t)"
proof (induction t arbitrary: i rule: calculateTotal.induct)
  case (1 nm lv c cs tc)
  then show ?case by (auto simp: Let_def)
qed

lemma levelled_processData: "levelled 0 (processData data)"
  unfolding processData_def
  by (intro levelled_calculateTotal levelled_foldl_addRow) (simp add: rootNode_def)

lemma find_name_Some:
  "find (\<lambda>ch. name ch = x) cs = Some ch \<Longrightarrow> ch \<in> set cs \<and> name ch = x"
  by (induction cs) (auto split: if_splits)

lemma find_name_distinct:
  "distinct (map name cs) \<Longrightarrow> ch \<in> set cs \<Longrightarrow> find (\<lambda>c. name c = name ch) cs = Some ch"
  by (induction cs) auto

lemma lookup_levelled:
  "levelled i t \<Longrightarrow> lookup t p = Some n \<Longrightarrow> levelled (i + length p) n"
proof (induction p arbitrary: t i)
  case Nil
  then show ?case by simp
next
  case (Cons x p)
  from Cons.prems(2) obtain ch where ch: "find (\<lambda>ch. name ch = x) (children t) = Some ch"
    and l: "lookup ch p = Some n"
    by (auto split: option.splits)
  from find_name_Some [OF ch] have "ch \<in> set (children t)" by simp
  with Cons.prems(1) have "levelled (i + 1) ch" by (simp add: levelled_alt [of i t])
  from Cons.IH [OF this l] show ?case by simp
qed

lemma lookup_uniqueNames:
  "uniqueNames t \<Longrightarrow> lookup t p = Some n \<Longrightarrow> uniqueNames n"
proof (induction p arbitrary: t)
  case Nil
  then show ?case by simp
next
  case (Cons x p)
  from Cons.prems(2) obtain ch where ch: "find (\<lambda>ch. name ch = x) (children t) = Some ch"
    and l: "lookup ch p = Some n"
    by (auto split: option.splits)
  from find_name_Some [OF ch] have "ch \<in> set (children t)" by simp
  with Cons.prems(1) have "uniqueNames ch" by (simp add: uniqueNames_alt [of t])
  from Cons.IH [OF this l] show ?case .
qed

lemma preorder_lookup:
  "uniqueNames n \<Longrightarrow>
   (q, m) \<in> set (preorder path n) \<longleftrightarrow>
     (\<exists>p'. q = path @ name n # p' \<and> lookup n p' = Some m)"
proof (induction path n arbitrary: q rule: preorder.induct)
  case (1 path nm lv c cs tc)
  let ?n = "CostNode nm lv c cs tc"
  from "1.prems" have d: "distinct (map name cs)" and u: "\<And>ch. ch \<in> set cs \<Longrightarrow> uniqueNames ch"
    by simp_all
  have IH: "(q, m) \<in> set (preorder (path @ [nm]) ch) \<longleftrightarrow>
      (\<exists>p'. q = (path @ [nm]) @ name ch # p' \<and> lookup ch p' = Some m)"
    if "ch \<in> set cs" for ch
    using "1.IH" [OF that u [OF that]] .
  show ?case
  proof
    assume "(q, m) \<in> set (preorder path ?n)"
    then consider "q = path @ [nm]" "m = ?n"
      | ch where "ch \<in> set cs" "(q, m) \<in> set (preorder (path @ [nm]) ch)"
      by auto
    then show "\<exists>p'. q = path @ name ?n # p' \<and> lookup ?n p' = Some m"
    proof cases
      case 1
      then show ?thesis by (intro exI [of _ "[]"]) simp
    next
      case 2
      with IH obtain p' where p': "q = (path @ [nm]) @ name ch # p'" "lookup ch p' = Some m"
        by blast
      from d 2(1) have "find (\<lambda>c. name c = name ch) cs = Some ch"
        by (rule find_name_distinct)
      with p' show ?thesis
        by (intro exI [of _ "name ch # p'"]) simp
    qed
  next
    assume "\<exists>p'. q = path @ name ?n # p' \<and> lookup ?n p' = Some m"
    then obtain p' where p': "q = path @ nm # p'" "lookup ?n p' = Some m"
      by auto
    show "(q, m) \<in> set (preorder path ?n)"
    proof (cases p')
      case Nil
      have "(path @ [nm], ?n) \<in> set (preorder path ?n)" by simp
      with p' Nil show ?thesis by simp
    next
      case (Cons x p'')
      with p'(2) obtain ch where ch: "find (\<lambda>ch. name ch = x) cs = Some ch"
        and l: "lookup ch p'' = Some m"
        by (auto split: option.splits)
      from find_name_Some [OF ch] have mem: "ch \<in> set cs" and x: "name ch = x"
        by simp_all
      from IH [OF mem] l p'(1) Cons x have "(q, m) \<in> set (preorder (path @ [nm]) ch)"
        by simp
      with mem show ?thesis by auto
    qed
  qed
qed

lemma preorder_children_lookup:
  assumes "uniqueNames t"
  shows "(q, m) \<in> set (concat (map (preorder []) (children t))) \<longleftrightarrow>
    q \<noteq> [] \<and> lookup t q = Some m"
proof -
  have u: "uniqueNames ch" if "ch \<in> set (children t)" for ch
    using assms that by (simp add: uniqueNames_alt [of t])
  from assms have d: "distinct (map name (children t))"
    by (simp add: uniqueNames_alt [of t])
  show ?thesis
  proof
    assume "(q, m) \<in> set (concat (map (preorder []) (children t)))"
    then obtain ch where ch: "ch \<in> set (children t)" "(q, m) \<in> set (preorder [] ch)"
      by auto
    with preorder_lookup [OF u, of ch q m "[]"]
    obtain p' where p': "q = name ch # p'" "lookup ch p' = Some m"
      by auto
    from d ch(1) have "find (\<lambda>c. name c = name ch) (children t) = Some ch"
      by (rule find_name_distinct)
    with p' show "q \<noteq> [] \<and> lookup t q = Some m" by simp
  next
    assume a: "q \<noteq> [] \<and> lookup t q = Some m"
    then obtain x p' where q: "q = x # p'" by (cases q) auto
    with a have "lookup t (x # p') = Some m" by simp
    then obtain ch where ch: "find (\<lambda>ch. name ch = x) (children t) = Some ch"
        and l: "lookup ch p' = Some m"
      by (auto split: option.splits)
    from find_name_Some [OF ch] have mem: "ch \<in> set (children t)" and x: "name ch = x"
      by simp_all
    from preorder_lookup [OF u [OF mem], of q m "[]"] l q x
    have "(q, m) \<in> set (preorder [] ch)" by simp
    with mem show "(q, m) \<in> set (concat (map (preorder []) (children t)))" by auto
  qed
qed

lemma extractAll_preorder:
  assumes "levelled 0 t"
  shows "extractAll t =
    map optionOf (filter (\<lambda>pn. emitted (snd pn)) (concat (map (preorder []) (children t))))"
proof -
  have "extractCategories ch [] = map optionOf (filter (\<lambda>pn. emitted (snd pn)) (preorder [] ch))"
    if "ch \<in> set (children t)" for ch
  proof -
    from assms that have "levelled 1 ch" by (simp add: levelled_alt [of 0 t])
    then show ?thesis by (rule extractCategories_preorder)
  qed
  then have eq: "map (\<lambda>child. extractCategories child []) (children t) =
      map (\<lambda>ch. map optionOf (filter (\<lambda>pn. emitted (snd pn)) (preorder [] ch))) (children t)"
    by (intro map_cong refl)
  show ?thesis
    unfolding extractAll_def eq by (simp add: map_concat filter_concat comp_def)
qed


lemma optionOf_fields [simp]:
  "optLevel (optionOf pn) = level (snd pn)" "optPath (optionOf pn) = fst pn"
  "optNode (optionOf pn) = snd pn" "optName (optionOf pn) = join (ascii '' > '') (fst pn)"
  by (simp_all add: optionOf_def)

lemma extractAll_processData_set:
  "set (extractAll (processData data)) =
     optionOf ` {(p, n). lookup (processData data) p = Some n \<and> emitted n}"
proof -
  let ?t = "processData data"
  have l: "levelled 0 ?t" by (rule levelled_processData)
  have u: "uniqueNames ?t" by (rule uniqueNames_processData)
  have ne: "p \<noteq> []" if "lookup ?t p = Some n" "emitted n" for p n
  proof -
    from lookup_levelled [OF l that(1)] have "level n = length p"
      by (simp add: levelled_alt [of "length p" n])
    with that(2) show ?thesis by (auto simp: emitted_def)
  qed
  have "set (filter (\<lambda>pn. emitted (snd pn)) (concat (map (preorder []) (children ?t)))) =
      {(p, n). lookup ?t p = Some n \<and> emitted n}"
    using preorder_children_lookup [OF u] ne by auto
  then show ?thesis
    by (simp add: extractAll_preorder [OF l])
qed

text \<open>
  C6. Over the tree that \<open>processData\<close> returns, the traversal started on the children
  of the root has an option for the node at a path exactly when the level of the node
  is between 1 and 3 and its total is greater than 0; and every option has a level
  between 1 and 3, which is the level of its node and the length of its path, and a
  node of positive total, the node of the tree at the path of the option. So a node
  of level 4 or more has no option, whatever its total.
\<close>

theorem index_filter:
  "(\<forall>p n. (\<exists>opt \<in> set (extractAll (processData data)). optPath opt = p \<and> optNode opt = n) \<longleftrightarrow>
      lookup (processData data) p = Some n \<and> 1 \<le> level n \<and> level n \<le> 3 \<and> 0 < totalCost n) \<and>
   (\<forall>opt \<in> set (extractAll (processData data)).
      1 \<le> optLevel opt \<and> optLevel opt \<le> 3 \<and> 0 < totalCost (optNode opt) \<and>
      optLevel opt = level (optNode opt) \<and> level (optNode opt) = length (optPath opt) \<and>
      lookup (processData data) (optPath opt) = Some (optNode opt))"
proof (rule conjI)
  show "\<forall>p n. (\<exists>opt \<in> set (extractAll (processData data)). optPath opt = p \<and> optNode opt = n) \<longleftrightarrow>
      lookup (processData data) p = Some n \<and> 1 \<le> level n \<and> level n \<le> 3 \<and> 0 < totalCost n"
    unfolding extractAll_processData_set by (auto simp: emitted_def)
next
  show "\<forall>opt \<in> set (extractAll (processData data)).
      1 \<le> optLevel opt \<and> optLevel opt \<le> 3 \<and> 0 < totalCost (optNode opt) \<and>
      optLevel opt = level (optNode opt) \<and> level (optNode opt) = length (optPath opt) \<and>
      lookup (processData data) (optPath opt) = Some (optNode opt)"
  proof (rule ballI)
    fix opt assume "opt \<in> set (extractAll (processData data))"
    then obtain p n where o: "opt = optionOf (p, n)"
      and l: "lookup (processData data) p = Some n" and e: "emitted n"
      unfolding extractAll_processData_set by auto
    from lookup_levelled [OF levelled_processData l] have "level n = length p"
      by (simp add: levelled_alt [of "length p" n])
    with o l e show "1 \<le> optLevel opt \<and> optLevel opt \<le> 3 \<and> 0 < totalCost (optNode opt) \<and>
        optLevel opt = level (optNode opt) \<and> level (optNode opt) = length (optPath opt) \<and>
        lookup (processData data) (optPath opt) = Some (optNode opt)"
      by (simp add: emitted_def)
  qed
qed

lemma processData_deepRows:
  "processData deepRows =
     CostNode (ascii ''Total'') 0 0
       [CostNode (ascii ''Food'') 1 0
          [CostNode (ascii ''Lunch'') 2 0
             [CostNode (ascii ''a'') 3 0
                [CostNode (ascii ''b'') 4 (Finite 50) [] (Finite 50)] (Finite 50)]
             (Finite 50),
           CostNode (ascii ''Dinner'') 2 (Finite 80) [] (Finite 80)]
          (Finite 130),
        CostNode (ascii ''Free'') 1 0 [] 0]
       (Finite 130)"
  by (simp add: deepRows_def eval_defs)


lemma ascii_distinct:
  "ascii ''Food'' \<noteq> ascii ''Free''" "ascii ''Lunch'' \<noteq> ascii ''Dinner''"
  "ascii ''Free'' \<noteq> ascii ''Food''" "ascii ''Dinner'' \<noteq> ascii ''Lunch''"
  by (simp_all add: ascii_def)

lemma less_number_eval:
  "(0::number) < Finite q \<longleftrightarrow> 0 < q" "\<not> (0::number) < 0"
  by (simp_all add: zero_number_def)

text \<open>
  In the tree of \<open>deepRows\<close> the node \<open>a\<close> of level 3 has an option; its child \<open>b\<close> of
  level 4 and total 50 has none, and neither has \<open>Free\<close>, of level 1 and total 0.
\<close>

theorem index_filter_witness:
  "lookup (processData deepRows) [ascii ''Food'', ascii ''Lunch'', ascii ''a''] =
     Some (CostNode (ascii ''a'') 3 0
       [CostNode (ascii ''b'') 4 (Finite 50) [] (Finite 50)] (Finite 50)) \<and>
   (\<exists>opt \<in> set (extractAll (processData deepRows)).
      optPath opt = [ascii ''Food'', ascii ''Lunch'', ascii ''a''] \<and>
      optNode opt = CostNode (ascii ''a'') 3 0
        [CostNode (ascii ''b'') 4 (Finite 50) [] (Finite 50)] (Finite 50)) \<and>
   lookup (processData deepRows) [ascii ''Food'', ascii ''Lunch'', ascii ''a'', ascii ''b''] =
     Some (CostNode (ascii ''b'') 4 (Finite 50) [] (Finite 50)) \<and>
   0 < totalCost (CostNode (ascii ''b'') 4 (Finite 50) [] (Finite 50)) \<and>
   \<not> (\<exists>opt \<in> set (extractAll (processData deepRows)).
      optPath opt = [ascii ''Food'', ascii ''Lunch'', ascii ''a'', ascii ''b''] \<and>
      optNode opt = CostNode (ascii ''b'') 4 (Finite 50) [] (Finite 50)) \<and>
   lookup (processData deepRows) [ascii ''Free''] = Some (CostNode (ascii ''Free'') 1 0 [] 0) \<and>
   \<not> (\<exists>opt \<in> set (extractAll (processData deepRows)).
      optPath opt = [ascii ''Free''] \<and> optNode opt = CostNode (ascii ''Free'') 1 0 [] 0)"
proof -
  let ?a = "CostNode (ascii ''a'') 3 0
       [CostNode (ascii ''b'') 4 (Finite 50) [] (Finite 50)] (Finite 50)"
  let ?b = "CostNode (ascii ''b'') 4 (Finite 50) [] (Finite 50)"
  let ?free = "CostNode (ascii ''Free'') 1 0 [] 0"
  note iff = index_filter [of deepRows, THEN conjunct1, rule_format]
  have a: "lookup (processData deepRows) [ascii ''Food'', ascii ''Lunch'', ascii ''a''] = Some ?a"
    and b: "lookup (processData deepRows)
        [ascii ''Food'', ascii ''Lunch'', ascii ''a'', ascii ''b''] = Some ?b"
    and free: "lookup (processData deepRows) [ascii ''Free''] = Some ?free"
    by (simp_all add: processData_deepRows ascii_distinct)
  have "\<exists>opt \<in> set (extractAll (processData deepRows)).
      optPath opt = [ascii ''Food'', ascii ''Lunch'', ascii ''a''] \<and> optNode opt = ?a"
    unfolding iff using a by (simp add: less_number_eval del: lookup.simps)
  moreover have "\<not> (\<exists>opt \<in> set (extractAll (processData deepRows)).
      optPath opt = [ascii ''Food'', ascii ''Lunch'', ascii ''a'', ascii ''b''] \<and>
      optNode opt = ?b)"
    unfolding iff by simp
  moreover have "\<not> (\<exists>opt \<in> set (extractAll (processData deepRows)).
      optPath opt = [ascii ''Free''] \<and> optNode opt = ?free)"
    unfolding iff by (simp add: less_number_eval)
  ultimately show ?thesis
    using a b free by (simp add: less_number_eval del: lookup.simps)
qed

subsection \<open>The order of the options and of the children\<close>

lemma children_names_walkLevels:
  "map name (children (walkLevels ks i row c n)) =
     (case walkPath ks row of
        [] \<Rightarrow> map name (children n)
      | x # _ \<Rightarrow>
          if x \<in> set (map name (children n)) then map name (children n)
          else map name (children n) @ [x])"
proof (cases ks)
  case Nil
  then show ?thesis by simp
next
  case (Cons k ks')
  show ?thesis
  proof (cases "cellName row k")
    case None
    with Cons show ?thesis by simp
  next
    case (Some nm)
    show ?thesis
    proof (cases "find (\<lambda>ch. name ch = nm) (children n)")
      case None
      moreover from None have "nm \<notin> set (map name (children n))"
        by (simp add: find_name_None)
      ultimately show ?thesis using Cons Some by simp
    next
      case (Some ch)
      then have "find (\<lambda>ch. name ch = nm) (children n) \<noteq> None" by simp
      then have "nm \<in> set (map name (children n))"
        by (simp add: find_name_None)
      with Some Cons \<open>cellName row k = Some nm\<close> show ?thesis
        by (simp add: map_name_updFirst)
    qed
  qed
qed

lemma childNamesAt_addRow:
  "childNamesAt (addRow t row) p =
     (if strict_prefix p (rowPath row) then
        (if rowPath row ! length p \<in> set (childNamesAt t p) then childNamesAt t p
         else childNamesAt t p @ [rowPath row ! length p])
      else childNamesAt t p)"
proof (cases "prefix p (rowPath row)")
  case True
  then obtain rest where rest: "rowPath row = p @ rest"
    by (auto simp: prefix_def)
  from True have w: "walkPath (drop (length p) levelKeys) row = rest"
    using walkPath_drop [of p levelKeys row] rest by (simp add: rowPath_def)
  show ?thesis
  proof (cases rest)
    case Nil
    with rest w True show ?thesis
      by (simp add: childNamesAt_def lookup_addRow children_names_walkLevels
          split: option.splits)
  next
    case (Cons x rest')
    with rest have "strict_prefix p (rowPath row)" "rowPath row ! length p = x"
      by (simp_all add: strict_prefix_def nth_append)
    with Cons w True show ?thesis
      by (simp add: childNamesAt_def lookup_addRow children_names_walkLevels
          split: option.splits)
  qed
next
  case False
  then have "\<not> strict_prefix p (rowPath row)"
    by (auto simp: strict_prefix_def)
  with False show ?thesis
    by (simp add: childNamesAt_def lookup_addRow)
qed

lemma foldl_firstOccurrences:
  "foldl (\<lambda>ns x. if x \<in> set ns then ns else ns @ [x]) acc xs =
     acc @ filter (\<lambda>y. y \<notin> set acc) (firstOccurrences xs)"
proof (induction xs arbitrary: acc)
  case Nil
  show ?case by simp
next
  case (Cons x xs)
  show ?case
  proof (cases "x \<in> set acc")
    case True
    then have "filter (\<lambda>y. y \<notin> set acc) (filter (\<lambda>y. y \<noteq> x) (firstOccurrences xs)) =
        filter (\<lambda>y. y \<notin> set acc) (firstOccurrences xs)"
      by (auto intro: filter_cong)
    with True Cons.IH [of acc] show ?thesis by simp
  next
    case False
    have "filter (\<lambda>y. y \<notin> set (acc @ [x])) (firstOccurrences xs) =
        filter (\<lambda>y. y \<notin> set acc) (filter (\<lambda>y. y \<noteq> x) (firstOccurrences xs))"
      by (auto intro: filter_cong)
    with False Cons.IH [of "acc @ [x]"] show ?thesis by simp
  qed
qed

lemma childNamesAt_foldl_addRow:
  "childNamesAt (foldl addRow t data) p =
     foldl (\<lambda>ns x. if x \<in> set ns then ns else ns @ [x]) (childNamesAt t p)
       (map (\<lambda>r. rowPath r ! length p) (filter (\<lambda>r. strict_prefix p (rowPath r)) data))"
  by (induction data arbitrary: t) (simp_all add: childNamesAt_addRow)

lemma childNamesAt_rootNode: "childNamesAt rootNode p = []"
  by (simp add: childNamesAt_def lookup_rootNode) (simp add: rootNode_def)

lemma childNamesAt_calculateTotal: "childNamesAt (calculateTotal t) p = childNamesAt t p"
  by (simp add: childNamesAt_def lookup_calculateTotal comp_def split: option.splits)

lemma children_first_occurrences:
  assumes "lookup (processData data) p = Some n"
  shows "map name (children n) =
    firstOccurrences (map (\<lambda>r. rowPath r ! length p)
      (filter (\<lambda>r. strict_prefix p (rowPath r)) data))"
proof -
  from assms have "map name (children n) = childNamesAt (processData data) p"
    by (simp add: childNamesAt_def)
  also have "\<dots> = childNamesAt (foldl addRow rootNode data) p"
    by (simp add: processData_def childNamesAt_calculateTotal)
  finally show ?thesis
    by (simp add: childNamesAt_foldl_addRow childNamesAt_rootNode foldl_firstOccurrences)
qed

text \<open>
  C7. The options are, in this order, the options of the nodes of the pre-order
  traversal of the children of the root that pass the test of the index; and the
  children of every node of the tree are in the order in which the rows first name
  them: the node at a path has as names of its children the first occurrences of the
  next name in the rows whose path goes on after that path. The model is a function of
  the rows, so the same rows give the same options.
\<close>

theorem index_preorder:
  "extractAll (processData data) =
     map optionOf (filter (\<lambda>pn. emitted (snd pn))
       (concat (map (preorder []) (children (processData data))))) \<and>
   (\<forall>p n. lookup (processData data) p = Some n \<longrightarrow>
      map name (children n) =
        firstOccurrences (map (\<lambda>r. rowPath r ! length p)
          (filter (\<lambda>r. strict_prefix p (rowPath r)) data)))"
  using extractAll_preorder [OF levelled_processData] children_first_occurrences by blast


theorem index_preorder_witness:
  "map optName (extractAll (processData deepRows)) =
     [ascii ''Food'', ascii ''Food > Lunch'', ascii ''Food > Lunch > a'',
      ascii ''Food > Dinner''] \<and>
   map name (children (processData deepRows)) = [ascii ''Food'', ascii ''Free''] \<and>
   firstOccurrences (map (\<lambda>r. rowPath r ! length ([] :: jsstring list))
     (filter (\<lambda>r. strict_prefix [] (rowPath r)) deepRows)) = [ascii ''Food'', ascii ''Free'']"
proof -
  note th = index_preorder [of deepRows]
  have "map optName (extractAll (processData deepRows)) =
     [ascii ''Food'', ascii ''Food > Lunch'', ascii ''Food > Lunch > a'',
      ascii ''Food > Dinner'']"
    by (subst th [THEN conjunct1])
      (simp add: processData_deepRows emitted_def less_number_eval, simp add: ascii_def)
  moreover have n: "map name (children (processData deepRows)) = [ascii ''Food'', ascii ''Free'']"
    by (simp add: processData_deepRows)
  moreover have "lookup (processData deepRows) [] = Some (processData deepRows)"
    by simp
  with th [THEN conjunct2] have "map name (children (processData deepRows)) =
      firstOccurrences (map (\<lambda>r. rowPath r ! length ([] :: jsstring list))
        (filter (\<lambda>r. strict_prefix [] (rowPath r)) deepRows))"
    by blast
  ultimately show ?thesis by simp
qed



section \<open>Totals and the order of the rows\<close>

subsection \<open>The tree of rows with safe integer costs holds exact sums\<close>

lemma isInteger_iff: "isInteger x \<longleftrightarrow> (\<exists>q. x = Finite q \<and> q \<in> \<int>)"
  by (cases x) (auto simp: isInteger_def Ints_def intro: sym)

lemma plus_exact:
  assumes "isInteger x" "isInteger y" "\<bar>exactValue x + exactValue y\<bar> \<le> 2 ^ 53"
  shows "x + y = Finite (exactValue x + exactValue y)" and "isInteger (x + y)"
proof -
  from assms(1,2) obtain a b where x: "x = Finite a" "a \<in> \<int>" and y: "y = Finite b" "b \<in> \<int>"
    by (auto simp: isInteger_iff)
  with assms(3) have "Finite a + Finite b = Finite (a + b)"
    by (intro add_integers_exact) (simp_all add: exactValue_def)
  with x y show "x + y = Finite (exactValue x + exactValue y)"
    by (simp add: exactValue_def)
  with x y show "isInteger (x + y)"
    by (simp add: isInteger_iff exactValue_def)
qed

lemma isInteger_zero [simp]: "isInteger 0" "exactValue 0 = 0"
  by (simp_all add: isInteger_def exactValue_def zero_number_def)

lemma exactValue_Finite [simp]: "exactValue (Finite q) = q"
  by (simp add: exactValue_def)

lemma foldl_exact:
  assumes "\<forall>x \<in> set xs. isInteger x" "isInteger a"
    "\<bar>exactValue a\<bar> + (\<Sum>x\<leftarrow>xs. \<bar>exactValue x\<bar>) \<le> 2 ^ 53"
  shows "foldl (+) a xs = Finite (exactValue a + (\<Sum>x\<leftarrow>xs. exactValue x))"
  using assms
proof (induction xs arbitrary: a)
  case Nil
  then show ?case by (auto simp: isInteger_iff)
next
  case (Cons x xs)
  have nn: "0 \<le> (\<Sum>x\<leftarrow>xs. \<bar>exactValue x\<bar>)"
    by (rule sum_list_nonneg) auto
  from Cons.prems(3) nn have b: "\<bar>exactValue a + exactValue x\<bar> \<le> 2 ^ 53"
    by simp
  from Cons.prems have ix: "isInteger x" by simp
  note ax = plus_exact [OF Cons.prems(2) ix b]
  have "foldl (+) (a + x) xs = Finite (exactValue (a + x) + (\<Sum>x\<leftarrow>xs. exactValue x))"
  proof (rule Cons.IH)
    show "\<forall>x \<in> set xs. isInteger x" using Cons.prems(1) by simp
    show "isInteger (a + x)" by (rule ax(2))
    show "\<bar>exactValue (a + x)\<bar> + (\<Sum>x\<leftarrow>xs. \<bar>exactValue x\<bar>) \<le> 2 ^ 53"
      using Cons.prems(3) by (simp add: ax(1))
  qed
  then show ?case by (simp add: ax(1) add.assoc)
qed

lemma treeSum_alt: "treeSum n = exactValue (cost n) + (\<Sum>ch\<leftarrow>children n. treeSum ch)"
  by (cases n) simp

lemma treeAbs_alt: "treeAbs n = \<bar>exactValue (cost n)\<bar> + (\<Sum>ch\<leftarrow>children n. treeAbs ch)"
  by (cases n) simp

lemma integerCosts_alt:
  "integerCosts n \<longleftrightarrow> isInteger (cost n) \<and> (\<forall>ch \<in> set (children n). integerCosts ch)"
  by (cases n) simp

lemma treeAbs_nonneg: "0 \<le> treeAbs n"
proof (induction n rule: treeAbs.induct)
  case (1 nm lv c cs tc)
  then have "0 \<le> (\<Sum>ch\<leftarrow>cs. treeAbs ch)"
    by (intro sum_list_nonneg) auto
  then show ?case by simp
qed

lemma treeSum_le_treeAbs: "\<bar>treeSum n\<bar> \<le> treeAbs n"
proof (induction n rule: treeSum.induct)
  case (1 nm lv c cs tc)
  have "\<bar>\<Sum>ch\<leftarrow>cs. treeSum ch\<bar> \<le> (\<Sum>ch\<leftarrow>cs. \<bar>treeSum ch\<bar>)"
    using sum_list_abs [of "map treeSum cs"] by (simp add: comp_def)
  also have "\<dots> \<le> (\<Sum>ch\<leftarrow>cs. treeAbs ch)"
    using 1 by (intro sum_list_mono) auto
  finally show ?case by simp
qed

lemma treeSum_Ints: "integerCosts n \<Longrightarrow> treeSum n \<in> \<int>"
proof (induction n rule: treeSum.induct)
  case (1 nm lv c cs tc)
  then have "(\<Sum>ch\<leftarrow>cs. treeSum ch) \<in> \<int>"
    by (induction cs) auto
  with "1.prems" show ?case
    by (auto simp: isInteger_iff)
qed

lemma member_le_sum_list_nonneg:
  fixes f :: "'a \<Rightarrow> rat"
  assumes "\<forall>x \<in> set xs. 0 \<le> f x" "x \<in> set xs"
  shows "f x \<le> (\<Sum>y\<leftarrow>xs. f y)"
  using assms
proof (induction xs)
  case Nil
  then show ?case by simp
next
  case (Cons a xs)
  have "0 \<le> (\<Sum>y\<leftarrow>xs. f y)"
    using Cons.prems(1) by (intro sum_list_nonneg) auto
  with Cons show ?case by auto
qed

lemma child_treeAbs_le: "ch \<in> set (children n) \<Longrightarrow> treeAbs ch \<le> treeAbs n"
  using member_le_sum_list_nonneg [of "children n" treeAbs ch] treeAbs_nonneg
  by (simp add: treeAbs_alt [of n])


lemma calculateTotal_exact:
  "integerCosts n \<Longrightarrow> treeAbs n \<le> 2 ^ 53 \<Longrightarrow>
   totalCost (calculateTotal n) = Finite (treeSum n)"
proof (induction n rule: calculateTotal.induct)
  case (1 nm lv c cs tc)
  have nn: "0 \<le> (\<Sum>ch\<leftarrow>cs. treeAbs ch)"
    by (intro sum_list_nonneg) (auto simp: treeAbs_nonneg)
  have child: "totalCost (calculateTotal ch) = Finite (treeSum ch)" if "ch \<in> set cs" for ch
  proof (rule "1.IH" [OF that])
    from "1.prems"(1) that show "integerCosts ch" by simp
    from that have "treeAbs ch \<le> treeAbs (CostNode nm lv c cs tc)"
      by (intro child_treeAbs_le) simp
    with "1.prems"(2) show "treeAbs ch \<le> 2 ^ 53" by linarith
  qed
  have "foldl (\<lambda>sum child. sum + totalCost child) 0 (map calculateTotal cs) =
      foldl (+) 0 (map (\<lambda>ch. totalCost (calculateTotal ch)) cs)"
    by (simp add: foldl_map)
  also have "map (\<lambda>ch. totalCost (calculateTotal ch)) cs = map (\<lambda>ch. Finite (treeSum ch)) cs"
    using child by (intro map_cong refl)
  also have "foldl (+) 0 (map (\<lambda>ch. Finite (treeSum ch)) cs) =
      Finite (exactValue 0 + (\<Sum>x\<leftarrow>map (\<lambda>ch. Finite (treeSum ch)) cs. exactValue x))"
  proof (rule foldl_exact)
    show "\<forall>x \<in> set (map (\<lambda>ch. Finite (treeSum ch)) cs). isInteger x"
      using "1.prems"(1) by (auto simp: isInteger_iff treeSum_Ints)
    show "isInteger 0" by simp
    have "(\<Sum>x\<leftarrow>map (\<lambda>ch. Finite (treeSum ch)) cs. \<bar>exactValue x\<bar>) = (\<Sum>ch\<leftarrow>cs. \<bar>treeSum ch\<bar>)"
      by (simp add: comp_def)
    also have "\<dots> \<le> (\<Sum>ch\<leftarrow>cs. treeAbs ch)"
      by (intro sum_list_mono) (simp add: treeSum_le_treeAbs)
    also have "\<dots> \<le> 2 ^ 53"
      using "1.prems"(2) by simp
    finally show "\<bar>exactValue 0\<bar> +
        (\<Sum>x\<leftarrow>map (\<lambda>ch. Finite (treeSum ch)) cs. \<bar>exactValue x\<bar>) \<le> 2 ^ 53"
      by simp
  qed
  finally have sum: "foldl (\<lambda>sum child. sum + totalCost child) 0 (map calculateTotal cs) =
      Finite (\<Sum>ch\<leftarrow>cs. treeSum ch)"
    by (simp add: comp_def)
  have "c + Finite (\<Sum>ch\<leftarrow>cs. treeSum ch) =
      Finite (exactValue c + exactValue (Finite (\<Sum>ch\<leftarrow>cs. treeSum ch)))"
  proof (rule plus_exact(1))
    from "1.prems"(1) show "isInteger c" by simp
    have "(\<Sum>ch\<leftarrow>cs. treeSum ch) \<in> \<int>"
      using "1.prems"(1) treeSum_Ints by (induction cs) auto
    then show "isInteger (Finite (\<Sum>ch\<leftarrow>cs. treeSum ch))"
      by (simp add: isInteger_iff)
    have "\<bar>exactValue c + (\<Sum>ch\<leftarrow>cs. treeSum ch)\<bar> \<le> treeAbs (CostNode nm lv c cs tc)"
      using treeSum_le_treeAbs [of "CostNode nm lv c cs tc"] by simp
    with "1.prems"(2)
    show "\<bar>exactValue c + exactValue (Finite (\<Sum>ch\<leftarrow>cs. treeSum ch))\<bar> \<le> 2 ^ 53"
      by simp
  qed
  with sum show ?case by (simp add: Let_def)
qed

lemma updFirst_split:
  "find P cs = Some ch \<Longrightarrow> \<exists>xs ys. cs = xs @ ch # ys \<and> updFirst P g cs = xs @ g ch # ys"
proof (induction cs)
  case Nil
  then show ?case by simp
next
  case (Cons a cs)
  show ?case
  proof (cases "P a")
    case True
    with Cons.prems have "a = ch" by simp
    with True show ?thesis by (intro exI [of _ "[]"] exI [of _ cs]) simp
  next
    case False
    with Cons obtain xs ys where "cs = xs @ ch # ys" "updFirst P g cs = xs @ g ch # ys"
      by auto
    with False show ?thesis
      by (intro exI [of _ "a # xs"] exI [of _ ys]) simp
  qed
qed

lemma addCost_exact:
  assumes "integerCosts n" "isInteger c" "treeAbs n + \<bar>exactValue c\<bar> \<le> 2 ^ 53"
  defines "n' \<equiv> CostNode (name n) (level n) (cost n + c) (children n) (totalCost n)"
  shows "integerCosts n' \<and> treeAbs n' \<le> treeAbs n + \<bar>exactValue c\<bar> \<and>
    treeSum n' = treeSum n + exactValue c"
proof -
  have nn: "0 \<le> (\<Sum>ch\<leftarrow>children n. treeAbs ch)"
    by (intro sum_list_nonneg) (auto simp: treeAbs_nonneg)
  from assms(1) have i: "isInteger (cost n)" by (simp add: integerCosts_alt [of n])
  have b: "\<bar>exactValue (cost n) + exactValue c\<bar> \<le> 2 ^ 53"
    using assms(3) nn by (simp add: treeAbs_alt [of n])
  note e = plus_exact [OF i assms(2) b]
  from e assms(1) show ?thesis
    unfolding n'_def by (simp add: integerCosts_alt [of n] treeAbs_alt [of n] treeSum_alt [of n])
qed

lemma walkLevels_exact:
  assumes "integerCosts n" "isInteger c" "treeAbs n + \<bar>exactValue c\<bar> \<le> 2 ^ 53"
  shows "integerCosts (walkLevels ks i row c n) \<and>
    treeAbs (walkLevels ks i row c n) \<le> treeAbs n + \<bar>exactValue c\<bar> \<and>
    treeSum (walkLevels ks i row c n) = treeSum n + exactValue c"
  using assms
proof (induction ks arbitrary: i n)
  case Nil
  then show ?case using addCost_exact [of n c] by simp
next
  case (Cons k ks)
  show ?case
  proof (cases "cellName row k")
    case None
    with Cons.prems show ?thesis using addCost_exact [of n c] by simp
  next
    case (Some nm)
    show ?thesis
    proof (cases "find (\<lambda>ch. name ch = nm) (children n)")
      case None
      let ?fresh = "CostNode nm (i + 1) 0 [] 0"
      have "integerCosts (walkLevels ks (i + 1) row c ?fresh) \<and>
          treeAbs (walkLevels ks (i + 1) row c ?fresh) \<le> treeAbs ?fresh + \<bar>exactValue c\<bar> \<and>
          treeSum (walkLevels ks (i + 1) row c ?fresh) = treeSum ?fresh + exactValue c"
      proof (rule Cons.IH)
        show "integerCosts ?fresh" by simp
        show "isInteger c" by (rule Cons.prems(2))
        have "0 \<le> treeAbs n" by (rule treeAbs_nonneg)
        with Cons.prems(3) show "treeAbs ?fresh + \<bar>exactValue c\<bar> \<le> 2 ^ 53" by simp
      qed
      with None Some Cons.prems(1) show ?thesis
        by (simp add: integerCosts_alt [of n] treeAbs_alt [of n] treeSum_alt [of n])
    next
      case (Some ch)
      let ?w = "walkLevels ks (Suc i) row c"
      from updFirst_split [OF Some, of ?w] obtain xs ys
        where cs: "children n = xs @ ch # ys"
          and upd: "updFirst (\<lambda>ch. name ch = nm) ?w (children n) = xs @ ?w ch # ys"
        by blast
      from cs have mem: "ch \<in> set (children n)" by simp
      from upd have upd': "updFirst (\<lambda>ch. name ch = nm) ?w (xs @ ch # ys) = xs @ ?w ch # ys"
        by (simp only: cs)
      have "integerCosts (?w ch) \<and> treeAbs (?w ch) \<le> treeAbs ch + \<bar>exactValue c\<bar> \<and>
          treeSum (?w ch) = treeSum ch + exactValue c"
      proof (rule Cons.IH)
        from Cons.prems(1) mem show "integerCosts ch" by (simp add: integerCosts_alt [of n])
        show "isInteger c" by (rule Cons.prems(2))
        from child_treeAbs_le [OF mem] Cons.prems(3)
        show "treeAbs ch + \<bar>exactValue c\<bar> \<le> 2 ^ 53" by linarith
      qed
      with Some \<open>cellName row k = Some nm\<close> Cons.prems(1) show ?thesis
        unfolding walkLevels.simps
        by (simp add: upd' integerCosts_alt [of n] treeAbs_alt [of n] treeSum_alt [of n] cs)
    qed
  qed
qed

lemma lookup_integerCosts:
  "integerCosts t \<Longrightarrow> lookup t p = Some m \<Longrightarrow> integerCosts m \<and> treeAbs m \<le> treeAbs t"
proof (induction p arbitrary: t)
  case Nil
  then show ?case by simp
next
  case (Cons x p)
  from Cons.prems(2) obtain ch where ch: "find (\<lambda>ch. name ch = x) (children t) = Some ch"
    and l: "lookup ch p = Some m"
    by (auto split: option.splits)
  from find_name_Some [OF ch] have mem: "ch \<in> set (children t)" by simp
  with Cons.prems(1) have "integerCosts ch" by (simp add: integerCosts_alt [of t])
  from Cons.IH [OF this l] child_treeAbs_le [OF mem] show ?case by auto
qed

lemma treeSumAt_addRow:
  assumes "integerCosts t" "isInteger (rowCost row)"
    "treeAbs t + \<bar>exactValue (rowCost row)\<bar> \<le> 2 ^ 53"
  shows "treeSumAt (addRow t row) p =
    treeSumAt t p + (if prefix p (rowPath row) then exactValue (rowCost row) else 0)"
proof (cases "prefix p (rowPath row)")
  case False
  then show ?thesis by (simp add: treeSumAt_def lookup_addRow)
next
  case True
  define m0 where "m0 = (case lookup t p of Some m \<Rightarrow> m | None \<Rightarrow> CostNode (last p) (length p) 0 [] 0)"
  have m0: "integerCosts m0 \<and> treeAbs m0 \<le> treeAbs t \<and> treeSum m0 = treeSumAt t p"
  proof (cases "lookup t p")
    case None
    then show ?thesis by (simp add: m0_def treeSumAt_def treeAbs_nonneg)
  next
    case (Some m)
    with lookup_integerCosts [OF assms(1) Some] show ?thesis
      by (simp add: m0_def treeSumAt_def)
  qed
  with assms(3) have "treeAbs m0 + \<bar>exactValue (rowCost row)\<bar> \<le> 2 ^ 53" by linarith
  with m0 assms(2)
  have "treeSum (walkLevels (drop (length p) levelKeys) (length p) row (rowCost row) m0) =
      treeSum m0 + exactValue (rowCost row)"
    using walkLevels_exact by blast
  with True m0 show ?thesis
    by (simp add: treeSumAt_def lookup_addRow m0_def [symmetric])
qed

lemma foldl_addRow_exact:
  assumes "integerCosts t" "\<forall>r \<in> set data. isInteger (rowCost r)"
    "treeAbs t + (\<Sum>r\<leftarrow>data. \<bar>exactValue (rowCost r)\<bar>) \<le> 2 ^ 53"
  shows "integerCosts (foldl addRow t data) \<and>
    treeAbs (foldl addRow t data) \<le> treeAbs t + (\<Sum>r\<leftarrow>data. \<bar>exactValue (rowCost r)\<bar>) \<and>
    treeSumAt (foldl addRow t data) p =
      treeSumAt t p + (\<Sum>r\<leftarrow>filter (\<lambda>r. prefix p (rowPath r)) data. exactValue (rowCost r))"
  using assms
proof (induction data arbitrary: t)
  case Nil
  then show ?case by simp
next
  case (Cons r data)
  have nn: "0 \<le> (\<Sum>r\<leftarrow>data. \<bar>exactValue (rowCost r)\<bar>)"
    by (intro sum_list_nonneg) auto
  from Cons.prems(2) have ir: "isInteger (rowCost r)" by simp
  from Cons.prems(3) nn have br: "treeAbs t + \<bar>exactValue (rowCost r)\<bar> \<le> 2 ^ 53" by simp
  from walkLevels_exact [OF Cons.prems(1) ir br, of levelKeys 0 r]
  have w: "integerCosts (addRow t r)" "treeAbs (addRow t r) \<le> treeAbs t + \<bar>exactValue (rowCost r)\<bar>"
    by (simp_all add: addRow_def)
  have "integerCosts (foldl addRow (addRow t r) data) \<and>
    treeAbs (foldl addRow (addRow t r) data) \<le>
      treeAbs (addRow t r) + (\<Sum>r\<leftarrow>data. \<bar>exactValue (rowCost r)\<bar>) \<and>
    treeSumAt (foldl addRow (addRow t r) data) p =
      treeSumAt (addRow t r) p +
        (\<Sum>r\<leftarrow>filter (\<lambda>r. prefix p (rowPath r)) data. exactValue (rowCost r))"
  proof (rule Cons.IH)
    show "integerCosts (addRow t r)" by (rule w(1))
    show "\<forall>r \<in> set data. isInteger (rowCost r)" using Cons.prems(2) by simp
    show "treeAbs (addRow t r) + (\<Sum>r\<leftarrow>data. \<bar>exactValue (rowCost r)\<bar>) \<le> 2 ^ 53"
      using w(2) Cons.prems(3) by simp
  qed
  with w(2) treeSumAt_addRow [OF Cons.prems(1) ir br, of p] show ?case
    by simp
qed


lemma sum_list_filter_le_nonneg:
  fixes f :: "'a \<Rightarrow> rat"
  assumes "\<forall>x \<in> set xs. 0 \<le> f x"
  shows "(\<Sum>x\<leftarrow>filter P xs. f x) \<le> (\<Sum>x\<leftarrow>xs. f x)"
  using assms by (induction xs) (auto intro: add_increasing)

lemma processData_exact:
  assumes "safeIntegerAmounts data" "lookup (processData data) p = Some n"
  shows "cost n = Finite (\<Sum>r\<leftarrow>filter (\<lambda>r. rowPath r = p) data. exactValue (rowCost r))"
    and "totalCost n =
      Finite (\<Sum>r\<leftarrow>filter (\<lambda>r. prefix p (rowPath r)) data. exactValue (rowCost r))"
proof -
  from assms(1) have int: "\<forall>r \<in> set data. isInteger (rowCost r)"
    and bound: "(\<Sum>r\<leftarrow>data. \<bar>exactValue (rowCost r)\<bar>) \<le> 2 ^ 53"
    by (simp_all add: safeIntegerAmounts_def)
  let ?ends = "filter (\<lambda>r. rowPath r = p) data"
  have "foldl (+) 0 (map rowCost ?ends) =
      Finite (exactValue 0 + (\<Sum>x\<leftarrow>map rowCost ?ends. exactValue x))"
  proof (rule foldl_exact)
    show "\<forall>x \<in> set (map rowCost ?ends). isInteger x" using int by auto
    show "isInteger 0" by simp
    have "(\<Sum>r\<leftarrow>?ends. \<bar>exactValue (rowCost r)\<bar>) \<le> (\<Sum>r\<leftarrow>data. \<bar>exactValue (rowCost r)\<bar>)"
      by (rule sum_list_filter_le_nonneg) simp
    with bound show "\<bar>exactValue 0\<bar> + (\<Sum>x\<leftarrow>map rowCost ?ends. \<bar>exactValue x\<bar>) \<le> 2 ^ 53"
      by (simp add: comp_def)
  qed
  with lookup_processData_cost [OF assms(2)]
  show "cost n = Finite (\<Sum>r\<leftarrow>?ends. exactValue (rowCost r))"
    by (simp add: comp_def)
next
  from assms(1) have int: "\<forall>r \<in> set data. isInteger (rowCost r)"
    and bound: "(\<Sum>r\<leftarrow>data. \<bar>exactValue (rowCost r)\<bar>) \<le> 2 ^ 53"
    by (simp_all add: safeIntegerAmounts_def)
  let ?T = "foldl addRow rootNode data"
  have r: "integerCosts rootNode" "treeAbs rootNode = 0" "treeSumAt rootNode p = 0"
    by (simp_all add: treeSumAt_def lookup_rootNode) (simp_all add: rootNode_def)
  from foldl_addRow_exact [of rootNode data p] r int bound
  have T: "integerCosts ?T" "treeAbs ?T \<le> 2 ^ 53"
    "treeSumAt ?T p = (\<Sum>r\<leftarrow>filter (\<lambda>r. prefix p (rowPath r)) data. exactValue (rowCost r))"
    by simp_all
  from assms(2) obtain m where m: "lookup ?T p = Some m" and n: "n = calculateTotal m"
    by (auto simp: processData_def lookup_calculateTotal)
  from lookup_integerCosts [OF T(1) m] T(2) have "integerCosts m" "treeAbs m \<le> 2 ^ 53"
    by simp_all
  then have "totalCost (calculateTotal m) = Finite (treeSum m)"
    by (rule calculateTotal_exact)
  with m n T(3)
  show "totalCost n =
      Finite (\<Sum>r\<leftarrow>filter (\<lambda>r. prefix p (rowPath r)) data. exactValue (rowCost r))"
    by (simp add: treeSumAt_def)
qed

lemma sum_list_filter_mset:
  fixes f :: "'a \<Rightarrow> rat"
  assumes "mset xs = mset ys"
  shows "(\<Sum>x\<leftarrow>filter P xs. f x) = (\<Sum>x\<leftarrow>filter P ys. f x)"
proof -
  have "(\<Sum>x\<leftarrow>filter P zs. f x) = sum_mset (image_mset f (filter_mset P (mset zs)))" for zs
    by (metis mset_filter mset_map sum_mset_sum_list)
  with assms show ?thesis by simp
qed

lemma safeIntegerAmounts_mset:
  assumes "mset data' = mset data"
  shows "safeIntegerAmounts data' \<longleftrightarrow> safeIntegerAmounts data"
proof -
  from assms have "set data' = set data" by (rule mset_eq_setD)
  moreover have "(\<Sum>r\<leftarrow>data'. \<bar>exactValue (rowCost r)\<bar>) = (\<Sum>r\<leftarrow>data. \<bar>exactValue (rowCost r)\<bar>)"
    using sum_list_filter_mset [OF assms, where P = "\<lambda>r. True" and f = "\<lambda>r. \<bar>exactValue (rowCost r)\<bar>"] by simp
  ultimately show ?thesis by (simp add: safeIntegerAmounts_def)
qed

lemma lookup_processData_None:
  "lookup (processData data) p = None \<longleftrightarrow>
     p \<noteq> [] \<and> (\<forall>r \<in> set data. \<not> prefix p (rowPath r))"
proof -
  have "lookup (foldl addRow rootNode data) p = None \<longleftrightarrow>
      \<not> (lookup rootNode p \<noteq> None \<or> (\<exists>r \<in> set data. prefix p (rowPath r)))"
    using exists_foldl_addRow [of rootNode data p] by blast
  then show ?thesis
    by (simp add: processData_def lookup_calculateTotal lookup_rootNode)
qed

lemma name_foldl_addRow [simp]: "name (foldl addRow t data) = name t"
  by (induction data arbitrary: t) (simp_all add: addRow_def)

lemma lookup_name:
  "lookup t p = Some n \<Longrightarrow> name n = (if p = [] then name t else last p)"
proof (induction p arbitrary: t)
  case Nil
  then show ?case by simp
next
  case (Cons x p)
  from Cons.prems obtain ch where ch: "find (\<lambda>ch. name ch = x) (children t) = Some ch"
    and l: "lookup ch p = Some n"
    by (auto split: option.splits)
  from find_name_Some [OF ch] Cons.IH [OF l] show ?case by simp
qed

text \<open>
  C2, as the code has it. When the costs of the rows are integers whose absolute values
  sum to \<open>2 ^ 53\<close> at most, no addition of the program rounds: the total of the root is
  the exact sum of the costs of all rows, and it is the same for every permutation of
  the rows.
\<close>

theorem root_total_safe_integers:
  assumes "safeIntegerAmounts data"
  shows "totalCost (processData data) = Finite (\<Sum>r\<leftarrow>data. exactValue (rowCost r)) \<and>
    (\<forall>data'. mset data' = mset data \<longrightarrow>
       totalCost (processData data') = totalCost (processData data))"
proof (intro conjI allI impI)
  have total: "totalCost (processData d) = Finite (\<Sum>r\<leftarrow>d. exactValue (rowCost r))"
    if "safeIntegerAmounts d" for d
  proof -
    have "lookup (processData d) [] = Some (processData d)" by simp
    from processData_exact(2) [OF that this] show ?thesis by simp
  qed
  show "totalCost (processData data) = Finite (\<Sum>r\<leftarrow>data. exactValue (rowCost r))"
    using assms by (rule total)
  fix data' :: "row list"
  assume perm: "mset data' = mset data"
  with assms have "safeIntegerAmounts data'"
    using safeIntegerAmounts_mset [of data' data] by blast
  then have "totalCost (processData data') = Finite (\<Sum>r\<leftarrow>data'. exactValue (rowCost r))"
    by (rule total)
  also have "(\<Sum>r\<leftarrow>data'. exactValue (rowCost r)) = (\<Sum>r\<leftarrow>data. exactValue (rowCost r))"
    using sum_list_filter_mset [OF perm, where P = "\<lambda>r. True"
        and f = "\<lambda>r. exactValue (rowCost r)"]
    by simp
  also have "Finite (\<Sum>r\<leftarrow>data. exactValue (rowCost r)) = totalCost (processData data)"
    using total [OF assms] by (rule sym)
  finally show "totalCost (processData data') = totalCost (processData data)" .
qed

lemma processData_bigFirstRows:
  "processData bigFirstRows =
     CostNode (ascii ''Total'') 0 0
       [CostNode (ascii ''A'') 1 (Finite 9007199254740992) [] (Finite 9007199254740992)]
       (Finite 9007199254740992)"
  by (simp add: bigFirstRows_def eval_defs)

lemma processData_bigLastRows:
  "processData bigLastRows =
     CostNode (ascii ''Total'') 0 0
       [CostNode (ascii ''A'') 1 (Finite 9007199254740994) [] (Finite 9007199254740994)]
       (Finite 9007199254740994)"
  by (simp add: bigLastRows_def eval_defs)

lemma mset_bigRows: "mset bigLastRows = mset bigFirstRows"
  by (simp add: bigLastRows_def bigFirstRows_def)

text \<open>
  C2, as the claim has it, fails, since the addition of doubles rounds: the costs
  \<open>2 ^ 53\<close>, 1, 1 in this order give the total \<open>2 ^ 53\<close> (each 1 is rounded away), and
  in the order 1, 1, \<open>2 ^ 53\<close> they give \<open>2 ^ 53 + 2\<close>.
\<close>

theorem root_total_counterexample:
  "mset bigLastRows = mset bigFirstRows \<and>
   totalCost (processData bigFirstRows) = Finite 9007199254740992 \<and>
   totalCost (processData bigLastRows) = Finite 9007199254740994 \<and>
   totalCost (processData bigLastRows) \<noteq> totalCost (processData bigFirstRows)"
  by (simp add: mset_bigRows processData_bigFirstRows processData_bigLastRows)

lemma safeIntegerAmounts_twoLevelRows: "safeIntegerAmounts twoLevelRows"
  by (simp add: safeIntegerAmounts_def twoLevelRows_def isInteger_def eval_defs)

lemma processData_rev_twoLevelRows:
  "processData (rev twoLevelRows) =
     CostNode (ascii ''Total'') 0 0
       [CostNode (ascii ''Transport'') 1 (Finite 20) [] (Finite 20),
        CostNode (ascii ''Food'') 1 0
          [CostNode (ascii ''Dinner'') 2 (Finite 80) [] (Finite 80),
           CostNode (ascii ''Lunch'') 2 (Finite 50) [] (Finite 50)]
          (Finite 130)]
       (Finite 150)"
  by (simp add: twoLevelRows_def eval_defs)

theorem root_total_safe_integers_witness:
  "safeIntegerAmounts twoLevelRows \<and>
   totalCost (processData twoLevelRows) = Finite 150 \<and>
   mset (rev twoLevelRows) = mset twoLevelRows \<and>
   totalCost (processData (rev twoLevelRows)) = totalCost (processData twoLevelRows)"
proof -
  note th = root_total_safe_integers [OF safeIntegerAmounts_twoLevelRows]
  have "(\<Sum>r\<leftarrow>twoLevelRows. exactValue (rowCost r)) = 150"
    by (simp add: twoLevelRows_def eval_defs)
  with th [THEN conjunct1] have "totalCost (processData twoLevelRows) = Finite 150"
    by simp
  moreover have p: "mset (rev twoLevelRows) = mset twoLevelRows"
    by simp
  moreover from th [THEN conjunct2] p
  have "totalCost (processData (rev twoLevelRows)) = totalCost (processData twoLevelRows)"
    by blast
  ultimately show ?thesis
    using safeIntegerAmounts_twoLevelRows by simp
qed

text \<open>
  C3, as the code has it. When the costs of the rows are integers whose absolute values
  sum to \<open>2 ^ 53\<close> at most, a permutation of the rows gives a tree with a node at the
  same paths, and the nodes at a path have the same cost, total, name and level in both
  trees. Nothing is said of the order of the children.
\<close>

theorem permutation_safe_integers:
  assumes "safeIntegerAmounts data" "mset data' = mset data"
  shows "\<forall>p. (lookup (processData data') p = None \<longleftrightarrow> lookup (processData data) p = None) \<and>
    (\<forall>n n'. lookup (processData data) p = Some n \<and> lookup (processData data') p = Some n' \<longrightarrow>
       cost n' = cost n \<and> totalCost n' = totalCost n \<and> name n' = name n \<and> level n' = level n)"
proof (intro allI conjI impI)
  fix p
  from assms(2) have "set data' = set data" by (rule mset_eq_setD)
  then show "lookup (processData data') p = None \<longleftrightarrow> lookup (processData data) p = None"
    by (simp only: lookup_processData_None)
next
  fix p n n'
  assume "lookup (processData data) p = Some n \<and> lookup (processData data') p = Some n'"
  then have l: "lookup (processData data) p = Some n" and l': "lookup (processData data') p = Some n'"
    by simp_all
  from assms have safe': "safeIntegerAmounts data'"
    using safeIntegerAmounts_mset [of data' data] by blast
  show "cost n' = cost n"
    using processData_exact(1) [OF assms(1) l] processData_exact(1) [OF safe' l']
      sum_list_filter_mset [OF assms(2), where P = "\<lambda>r. rowPath r = p"
        and f = "\<lambda>r. exactValue (rowCost r)"]
    by simp
  show "totalCost n' = totalCost n"
    using processData_exact(2) [OF assms(1) l] processData_exact(2) [OF safe' l']
      sum_list_filter_mset [OF assms(2), where P = "\<lambda>r. prefix p (rowPath r)"
        and f = "\<lambda>r. exactValue (rowCost r)"]
    by simp
  show "name n' = name n"
    using lookup_name [OF l] lookup_name [OF l'] by (simp add: processData_def)
  show "level n' = level n"
    using lookup_levelled [OF levelled_processData l] lookup_levelled [OF levelled_processData l']
    by (simp add: levelled_alt [of "length p"])
qed


text \<open>
  C3, as the claim has it, fails for the same rows: the node \<open>A\<close> has the cost and the
  total \<open>2 ^ 53\<close> for one order of the rows and \<open>2 ^ 53 + 2\<close> for the other.
\<close>

theorem permutation_counterexample:
  "mset bigLastRows = mset bigFirstRows \<and>
   lookup (processData bigFirstRows) [ascii ''A''] =
     Some (CostNode (ascii ''A'') 1 (Finite 9007199254740992) [] (Finite 9007199254740992)) \<and>
   lookup (processData bigLastRows) [ascii ''A''] =
     Some (CostNode (ascii ''A'') 1 (Finite 9007199254740994) [] (Finite 9007199254740994))"
  by (simp add: mset_bigRows processData_bigFirstRows processData_bigLastRows)

text \<open>
  The three rows of the scenario and their reverse: the node \<open>Food\<close> has the same cost
  and total, and its children are in the other order.
\<close>

theorem permutation_safe_integers_witness:
  "safeIntegerAmounts twoLevelRows \<and> mset (rev twoLevelRows) = mset twoLevelRows \<and>
   lookup (processData twoLevelRows) [ascii ''Food''] =
     Some (CostNode (ascii ''Food'') 1 0
       [CostNode (ascii ''Lunch'') 2 (Finite 50) [] (Finite 50),
        CostNode (ascii ''Dinner'') 2 (Finite 80) [] (Finite 80)]
       (Finite 130)) \<and>
   lookup (processData (rev twoLevelRows)) [ascii ''Food''] =
     Some (CostNode (ascii ''Food'') 1 0
       [CostNode (ascii ''Dinner'') 2 (Finite 80) [] (Finite 80),
        CostNode (ascii ''Lunch'') 2 (Finite 50) [] (Finite 50)]
       (Finite 130)) \<and>
   (lookup (processData (rev twoLevelRows)) [ascii ''Food'', ascii ''Lunch''] = None \<longleftrightarrow>
    lookup (processData twoLevelRows) [ascii ''Food'', ascii ''Lunch''] = None)"
proof -
  have p: "mset (rev twoLevelRows) = mset twoLevelRows"
    by simp
  note th = permutation_safe_integers [OF safeIntegerAmounts_twoLevelRows p]
  have ne: "ascii ''Transport'' \<noteq> ascii ''Food''"
    by (simp add: ascii_def)
  have "lookup (processData twoLevelRows) [ascii ''Food''] =
     Some (CostNode (ascii ''Food'') 1 0
       [CostNode (ascii ''Lunch'') 2 (Finite 50) [] (Finite 50),
        CostNode (ascii ''Dinner'') 2 (Finite 80) [] (Finite 80)]
       (Finite 130))"
    by (simp add: processData_twoLevelRows)
  moreover have "lookup (processData (rev twoLevelRows)) [ascii ''Food''] =
     Some (CostNode (ascii ''Food'') 1 0
       [CostNode (ascii ''Dinner'') 2 (Finite 80) [] (Finite 80),
        CostNode (ascii ''Lunch'') 2 (Finite 50) [] (Finite 50)]
       (Finite 130))"
    by (simp add: processData_rev_twoLevelRows ne)
  moreover from th
  have "lookup (processData (rev twoLevelRows)) [ascii ''Food'', ascii ''Lunch''] = None \<longleftrightarrow>
    lookup (processData twoLevelRows) [ascii ''Food'', ascii ''Lunch''] = None"
    by blast
  ultimately show ?thesis
    using safeIntegerAmounts_twoLevelRows p by blast
qed

section \<open>The cost cell\<close>

subsection \<open>The costs of a built tree are doubles\<close>

lemma doubleCosts_alt:
  "doubleCosts n \<longleftrightarrow>
     isDouble (cost n) \<and> cost n \<noteq> NegZero \<and> (\<forall>ch \<in> set (children n). doubleCosts ch)"
  by (cases n) simp

lemma doubleCosts_walkLevels:
  assumes "doubleCosts n" "isDouble c" "c \<noteq> NegZero"
  shows "doubleCosts (walkLevels ks i row c n)"
  using assms(1)
proof (induction ks arbitrary: i n)
  case Nil
  with assms(2,3) show ?case
    by (simp add: doubleCosts_alt [of n] isDouble_plus plus_not_NegZero)
next
  case (Cons k ks)
  show ?case
  proof (cases "cellName row k")
    case None
    with Cons.prems assms(2,3) show ?thesis
      by (simp add: doubleCosts_alt [of n] isDouble_plus plus_not_NegZero)
  next
    case (Some nm)
    show ?thesis
    proof (cases "find (\<lambda>ch. name ch = nm) (children n)")
      case None
      have "doubleCosts (walkLevels ks (i + 1) row c (CostNode nm (i + 1) 0 [] 0))"
        by (rule Cons.IH) (simp add: zero_number_def representable_zero)
      with None Some Cons.prems show ?thesis
        by (simp add: doubleCosts_alt [of n])
    next
      case (Some ch)
      have "doubleCosts x"
        if "x \<in> set (updFirst (\<lambda>ch. name ch = nm) (walkLevels ks (i + 1) row c) (children n))"
        for x
        using that set_updFirst [of "\<lambda>ch. name ch = nm" "walkLevels ks (i + 1) row c" "children n"]
          Cons.prems Cons.IH
        by (auto simp: doubleCosts_alt [of n])
      with Some \<open>cellName row k = Some nm\<close> Cons.prems show ?thesis
        by (simp add: doubleCosts_alt [of n])
    qed
  qed
qed

lemma doubleCosts_foldl_addRow: "doubleCosts t \<Longrightarrow> doubleCosts (foldl addRow t data)"
  by (induction data arbitrary: t) (simp_all add: addRow_def doubleCosts_walkLevels rowCost_double)

lemma doubleCosts_rootNode: "doubleCosts rootNode"
  by (simp add: rootNode_def zero_number_def representable_zero)

lemma lookup_doubleCosts: "doubleCosts t \<Longrightarrow> lookup t p = Some n \<Longrightarrow> doubleCosts n"
proof (induction p arbitrary: t)
  case Nil
  then show ?case by simp
next
  case (Cons x p)
  from Cons.prems(2) obtain ch where ch: "find (\<lambda>ch. name ch = x) (children t) = Some ch"
    and l: "lookup ch p = Some n"
    by (auto split: option.splits)
  from find_name_Some [OF ch] have "ch \<in> set (children t)" by simp
  with Cons.prems(1) have "doubleCosts ch" by (simp add: doubleCosts_alt [of t])
  from Cons.IH [OF this l] show ?case .
qed

lemma costAt_plus_zero:
  assumes "doubleCosts t"
  shows "costAt t p + 0 = costAt t p"
proof (cases "lookup t p")
  case None
  then show ?thesis by (simp add: costAt_def zero_number_def)
next
  case (Some n)
  with lookup_doubleCosts [OF assms Some] show ?thesis
    by (simp add: costAt_def doubleCosts_alt [of n] plus_zero_right)
qed

lemma zero_cost_row_keeps_costs:
  assumes "rowCost row = 0"
  shows "costAt (addRow (foldl addRow rootNode rows) row) p = costAt (foldl addRow rootNode rows) p"
  using assms
  by (simp add: costAt_addRow costAt_plus_zero doubleCosts_foldl_addRow doubleCosts_rootNode)

subsection \<open>Cells that are not numbers\<close>

lemma parseFloat_undefined: "parseFloat (ascii ''undefined'') = NaN"
  by (simp add: eval_defs)

lemma prefix_rowPath_addRow: "prefix p (rowPath row) \<Longrightarrow> lookup (addRow t row) p \<noteq> None"
  by (simp add: lookup_addRow)

text \<open>
  C8. A row whose cost cell is absent, or is a string that \<open>parseFloat\<close> maps to NaN,
  counts with the cost 0: the walk creates (or finds) the node of every prefix of the
  path of the row, adds 0 to the cost of the node it reaches and leaves every other
  cost as it was; added to a tree that the rows before it have built, it leaves the
  cost at every path as it was. The model of \<open>processData\<close> is a total function, as the
  source has no statement that throws on a row of strings.
\<close>

theorem unparsable_amount:
  assumes "row Cost = None \<or> (\<exists>s. row Cost = Some s \<and> parseFloat s = NaN)"
  shows "rowCost row = 0 \<and>
    (\<forall>p. prefix p (rowPath row) \<longrightarrow> lookup (addRow t row) p \<noteq> None) \<and>
    costAt (addRow t row) (rowPath row) = costAt t (rowPath row) + 0 \<and>
    (\<forall>p. p \<noteq> rowPath row \<longrightarrow> costAt (addRow t row) p = costAt t p) \<and>
    (\<forall>rows p. costAt (addRow (foldl addRow rootNode rows) row) p =
       costAt (foldl addRow rootNode rows) p)"
proof -
  from assms have z: "rowCost row = 0"
    by (auto simp: rowCost_def parseFloat_undefined truthy_def)
  then have "costAt (addRow (foldl addRow rootNode rows) row) p =
      costAt (foldl addRow rootNode rows) p" for rows p
    by (rule zero_cost_row_keeps_costs)
  moreover from z have "costAt (addRow t row) (rowPath row) = costAt t (rowPath row) + 0"
    by (simp add: costAt_addRow)
  moreover have "costAt (addRow t row) p = costAt t p" if "p \<noteq> rowPath row" for p
    using that by (simp add: costAt_addRow)
  ultimately show ?thesis
    using z prefix_rowPath_addRow by blast
qed

theorem unparsable_amount_witness:
  "rowCost unparsableRow = 0 \<and>
   lookup (addRow rootNode unparsableRow) [ascii ''A''] \<noteq> None \<and>
   lookup (addRow rootNode unparsableRow) [ascii ''A'', ascii ''B''] \<noteq> None \<and>
   costAt (addRow rootNode unparsableRow) [ascii ''A'', ascii ''B''] = 0 \<and>
   costAt (addRow (foldl addRow rootNode lunchRows) unparsableRow)
     [ascii ''Food'', ascii ''Lunch''] = Finite 25 \<and>
   processData [unparsableRow] =
     CostNode (ascii ''Total'') 0 0
       [CostNode (ascii ''A'') 1 0 [CostNode (ascii ''B'') 2 0 [] 0] 0] 0"
proof -
  have nan: "unparsableRow Cost = Some (ascii ''N/A'')" "parseFloat (ascii ''N/A'') = NaN"
    by (simp_all add: unparsableRow_def eval_defs)
  then have h: "unparsableRow Cost = None \<or>
      (\<exists>s. unparsableRow Cost = Some s \<and> parseFloat s = NaN)"
    by simp
  have p: "rowPath unparsableRow = [ascii ''A'', ascii ''B'']"
    by (simp add: rowPath_def unparsableRow_def eval_defs)
  have z: "(0::number) + 0 = 0"
    by (simp add: zero_number_def)
  note th = unparsable_amount [of unparsableRow rootNode, OF h]
  have "lookup (addRow rootNode unparsableRow) [ascii ''A''] \<noteq> None"
    using th [THEN conjunct2, THEN conjunct1] p by (simp del: lookup.simps)
  moreover have "lookup (addRow rootNode unparsableRow) [ascii ''A'', ascii ''B''] \<noteq> None"
    using th [THEN conjunct2, THEN conjunct1] p by (simp del: lookup.simps)
  moreover have "costAt (addRow rootNode unparsableRow) [ascii ''A'', ascii ''B''] = 0"
    using th [THEN conjunct2, THEN conjunct2, THEN conjunct1] p z
    by (simp add: costAt_def lookup_rootNode del: lookup.simps)
  moreover have "costAt (addRow (foldl addRow rootNode lunchRows) unparsableRow)
     [ascii ''Food'', ascii ''Lunch''] = Finite 25"
  proof -
    have "costAt (foldl addRow rootNode lunchRows) [ascii ''Food'', ascii ''Lunch''] = Finite 25"
      by (simp add: costAt_def lunchRows_def eval_defs)
    with th [THEN conjunct2, THEN conjunct2, THEN conjunct2, THEN conjunct2] show ?thesis
      by (simp only:)
  qed
  moreover have "processData [unparsableRow] =
     CostNode (ascii ''Total'') 0 0
       [CostNode (ascii ''A'') 1 0 [CostNode (ascii ''B'') 2 0 [] 0] 0] 0"
    by (simp add: unparsableRow_def eval_defs)
  ultimately show ?thesis using th [THEN conjunct1] by simp
qed


text \<open>
  C10. \<open>parseFloat\<close> reads the longest numeric prefix: the cost cell \<open>12abc\<close> counts as
  12, not as 0.
\<close>

theorem parseFloat_prefix:
  "parseFloat (ascii ''12abc'') = Finite 12 \<and>
   rowCost prefixRow = Finite 12 \<and>
   processData [prefixRow] =
     CostNode (ascii ''Total'') 0 0 [CostNode (ascii ''A'') 1 (Finite 12) [] (Finite 12)]
       (Finite 12)"
  by (simp add: prefixRow_def eval_defs)

end
